theory Spec2Isabelle
  imports Complex_Main "HOL-Library.Word"
begin

unbundle bit_operations_syntax

section \<open>Bytes, typed arrays and platform errors\<close>

text \<open>
  A \<^verbatim>\<open>Uint8Array\<close> is modelled by the list of its elements. Every array of the audio
  pipeline is allocated by \<^verbatim>\<open>new Uint8Array(len)\<close> in \<^verbatim>\<open>decode\<close>, so it covers its
  \<^verbatim>\<open>ArrayBuffer\<close> from offset 0 and \<^verbatim>\<open>pcmData.buffer\<close> holds exactly the elements of
  \<^verbatim>\<open>pcmData\<close>. Allocation is taken to succeed.

  The exceptions are those the platform operations called by the source raise:
  \<^verbatim>\<open>atob\<close> raises \<^verbatim>\<open>InvalidCharacterError\<close>, the \<^verbatim>\<open>Int16Array\<close> constructor and the
  \<^verbatim>\<open>DataView\<close> setters raise \<^verbatim>\<open>RangeError\<close>, and \<^verbatim>\<open>createBuffer\<close> raises
  \<^verbatim>\<open>NotSupportedError\<close>.
\<close>

type_synonym byte = "8 word"

datatype error = InvalidCharacterError | RangeError | NotSupportedError

section \<open>Base64: \<^verbatim>\<open>atob\<close> and \<^verbatim>\<open>decode\<close>\<close>

text \<open>
  \<^verbatim>\<open>atob\<close> is the platform's forgiving-base64 decoder (HTML standard): ASCII whitespace
  is removed; if the length is then a multiple of 4, one or two trailing \<^verbatim>\<open>=\<close> are
  removed; a length that leaves remainder 1 modulo 4, or any character outside the
  alphabet, is a failure; the remaining characters contribute 6 bits each, and the 4 or 2
  bits left over after the last whole byte are discarded. The result is a string whose
  character codes are the decoded bytes. A JavaScript string may hold code units above 255;
  \<^verbatim>\<open>atob\<close> rejects every string that holds one, and the model leaves them out.
\<close>

definition is_ascii_whitespace :: "char \<Rightarrow> bool" where
  "is_ascii_whitespace c \<longleftrightarrow>
     c = CHR 0x09 \<or> c = CHR 0x0A \<or> c = CHR 0x0C \<or> c = CHR 0x0D \<or> c = CHR 0x20"

definition alphabet_value :: "char \<Rightarrow> nat option" where
  "alphabet_value c =
     (let k = (of_char c :: nat) in
      if 65 \<le> k \<and> k \<le> 90 then Some (k - 65)
      else if 97 \<le> k \<and> k \<le> 122 then Some (k - 71)
      else if 48 \<le> k \<and> k \<le> 57 then Some (k + 4)
      else if k = 43 then Some 62
      else if k = 47 then Some 63
      else None)"

definition remove_padding :: "string \<Rightarrow> string" where
  "remove_padding data =
     (if length data mod 4 = 0 then
        (if 2 \<le> length data \<and> drop (length data - 2) data = ''=='' then take (length data - 2) data
         else if 1 \<le> length data \<and> last data = CHR ''='' then butlast data
         else data)
      else data)"

fun decode_groups :: "nat list \<Rightarrow> byte list" where
  "decode_groups (a # b # c # d # rest) =
     (let n = ((a * 64 + b) * 64 + c) * 64 + d
      in [of_nat (n div 65536), of_nat (n div 256), of_nat n]) @ decode_groups rest"
| "decode_groups [a, b, c] =
     (let n = ((a * 64 + b) * 64 + c) div 4 in [of_nat (n div 256), of_nat n])"
| "decode_groups [a, b] = (let n = (a * 64 + b) div 16 in [of_nat n])"
| "decode_groups _ = []"

definition forgiving_base64_decode :: "string \<Rightarrow> byte list option" where
  "forgiving_base64_decode data =
     (let stripped = filter (\<lambda>c. \<not> is_ascii_whitespace c) data;
          unpadded = remove_padding stripped
      in if length unpadded mod 4 = 1 then None
         else (case those (map alphabet_value unpadded) of
                 None \<Rightarrow> None
               | Some vs \<Rightarrow> Some (decode_groups vs)))"

definition atob :: "string \<Rightarrow> error + string" where
  "atob data =
     (case forgiving_base64_decode data of
        None \<Rightarrow> Inl InvalidCharacterError
      | Some bs \<Rightarrow> Inr (map (\<lambda>b. char_of (unat b)) bs))"

text \<open>
  \<^verbatim>\<open>decode\<close>: the loop stores \<^verbatim>\<open>binaryString.charCodeAt(i)\<close> at index \<^verbatim>\<open>i\<close> of a
  fresh array, for every \<^verbatim>\<open>i\<close> below the string's length.
\<close>

definition decode :: "string \<Rightarrow> error + byte list" where
  "decode base64 =
     (case atob base64 of
        Inl e \<Rightarrow> Inl e
      | Inr binaryString \<Rightarrow>
          Inr (map (\<lambda>i. of_char (binaryString ! i)) [0..<length binaryString]))"

text \<open>
  The reference encoder of the round-trip property (RFC 4648, section 4, with padding);
  it is not part of the repository.
\<close>

definition alphabet_char :: "nat \<Rightarrow> char" where
  "alphabet_char v =
     (if v < 26 then char_of (v + 65)
      else if v < 52 then char_of (v + 71)
      else if v < 62 then char_of (v - 4)
      else if v = 62 then CHR ''+''
      else CHR ''/'')"

fun base64Encode :: "byte list \<Rightarrow> string" where
  "base64Encode (a # b # c # rest) =
     (let n = unat a * 65536 + unat b * 256 + unat c
      in [alphabet_char (n div 262144), alphabet_char (n div 4096 mod 64),
          alphabet_char (n div 64 mod 64), alphabet_char (n mod 64)]) @ base64Encode rest"
| "base64Encode [a, b] =
     (let n = unat a * 65536 + unat b * 256
      in [alphabet_char (n div 262144), alphabet_char (n div 4096 mod 64),
          alphabet_char (n div 64 mod 64), CHR ''=''])"
| "base64Encode [a] =
     (let n = unat a * 65536
      in [alphabet_char (n div 262144), alphabet_char (n div 4096 mod 64),
          CHR ''='', CHR ''=''])"
| "base64Encode [] = []"

text \<open>
  Auxiliary functions for the round-trip proof: the 6-bit values the encoder emits, and the
  padding it appends.
\<close>

fun encode_values :: "byte list \<Rightarrow> nat list" where
  "encode_values (a # b # c # rest) =
     (let n = unat a * 65536 + unat b * 256 + unat c
      in [n div 262144, n div 4096 mod 64, n div 64 mod 64, n mod 64]) @ encode_values rest"
| "encode_values [a, b] =
     (let n = unat a * 65536 + unat b * 256
      in [n div 262144, n div 4096 mod 64, n div 64 mod 64])"
| "encode_values [a] =
     (let n = unat a * 65536 in [n div 262144, n div 4096 mod 64])"
| "encode_values [] = []"

fun padding :: "byte list \<Rightarrow> string" where
  "padding (a # b # c # rest) = padding rest"
| "padding [a, b] = ''=''"
| "padding [a] = ''==''"
| "padding [] = []"

section \<open>The WAV container writer\<close>

text \<open>
  A \<^verbatim>\<open>DataView\<close> over a fresh \<^verbatim>\<open>ArrayBuffer\<close> is the list of its bytes. A setter
  raises \<^verbatim>\<open>RangeError\<close> when the write would pass the end of the view; its value
  argument is a number, reduced modulo \<open>2\<^sup>8\<close>, \<open>2\<^sup>1\<^sup>6\<close> or \<open>2\<^sup>3\<^sup>2\<close>
  (conversion to \<^typ>\<open>byte\<close> keeps the low 8 bits). All multi-byte writes of the source
  pass \<^verbatim>\<open>littleEndian = true\<close>.
\<close>

definition and_then :: "error + 'a \<Rightarrow> ('a \<Rightarrow> error + 'b) \<Rightarrow> error + 'b" where
  "and_then r f = (case r of Inl e \<Rightarrow> Inl e | Inr x \<Rightarrow> f x)"

definition setUint8 :: "byte list \<Rightarrow> nat \<Rightarrow> nat \<Rightarrow> error + byte list" where
  "setUint8 view byteOffset v =
     (if byteOffset + 1 \<le> length view then Inr (view[byteOffset := of_nat v])
      else Inl RangeError)"

definition setUint16 :: "byte list \<Rightarrow> nat \<Rightarrow> nat \<Rightarrow> error + byte list" where
  "setUint16 view byteOffset v =
     (if byteOffset + 2 \<le> length view
      then Inr (view[byteOffset := of_nat v, byteOffset + 1 := of_nat (v div 256)])
      else Inl RangeError)"

definition setUint32 :: "byte list \<Rightarrow> nat \<Rightarrow> nat \<Rightarrow> error + byte list" where
  "setUint32 view byteOffset v =
     (if byteOffset + 4 \<le> length view
      then Inr (view[byteOffset := of_nat v, byteOffset + 1 := of_nat (v div 256),
                     byteOffset + 2 := of_nat (v div 65536),
                     byteOffset + 3 := of_nat (v div 16777216)])
      else Inl RangeError)"

fun writeString :: "byte list \<Rightarrow> nat \<Rightarrow> string \<Rightarrow> error + byte list" where
  "writeString view offset [] = Inr view"
| "writeString view offset (c # cs) =
     and_then (setUint8 view offset (of_char c)) (\<lambda>view. writeString view (offset + 1) cs)"

text \<open>The loop \<^verbatim>\<open>for (let i = 0; i < pcmData.length; i++) view.setUint8(44 + i, pcmData[i])\<close>.\<close>

function copy_pcm :: "byte list \<Rightarrow> byte list \<Rightarrow> nat \<Rightarrow> error + byte list" where
  "copy_pcm view pcmData i =
     (if i < length pcmData
      then and_then (setUint8 view (44 + i) (unat (pcmData ! i)))
             (\<lambda>view. copy_pcm view pcmData (i + 1))
      else Inr view)"
  by pat_completeness auto
termination
  by (relation "measure (\<lambda>(view, pcmData, i). length pcmData - i)") auto

declare copy_pcm.simps [simp del]

record blob =
  blob_bytes :: "byte list"
  blob_type :: string

definition createWavBlob :: "byte list \<Rightarrow> error + blob" where
  "createWavBlob pcmData =
     (let sampleRate = 24000;
          numChannels = 1;
          bitsPerSample = 16;
          dataSize = length pcmData;
          blockAlign = (numChannels * bitsPerSample) div 8;
          byteRate = sampleRate * blockAlign;
          view = replicate (44 + dataSize) 0
      in and_then (writeString view 0 ''RIFF'') (\<lambda>view.
         and_then (setUint32 view 4 (36 + dataSize)) (\<lambda>view.
         and_then (writeString view 8 ''WAVE'') (\<lambda>view.
         and_then (writeString view 12 ''fmt '') (\<lambda>view.
         and_then (setUint32 view 16 16) (\<lambda>view.
         and_then (setUint16 view 20 1) (\<lambda>view.
         and_then (setUint16 view 22 numChannels) (\<lambda>view.
         and_then (setUint32 view 24 sampleRate) (\<lambda>view.
         and_then (setUint32 view 28 byteRate) (\<lambda>view.
         and_then (setUint16 view 32 blockAlign) (\<lambda>view.
         and_then (setUint16 view 34 bitsPerSample) (\<lambda>view.
         and_then (writeString view 36 ''data'') (\<lambda>view.
         and_then (setUint32 view 40 dataSize) (\<lambda>view.
         and_then (copy_pcm view pcmData 0) (\<lambda>view.
         Inr \<lparr>blob_bytes = view, blob_type = ''audio/wav''\<rparr>)))))))))))))))"

text \<open>
  Reading a file back, for stating the layout: the bytes at an offset, an unsigned
  little-endian integer, and the bytes of an ASCII string.
\<close>

definition bytes_at :: "byte list \<Rightarrow> nat \<Rightarrow> nat \<Rightarrow> byte list" where
  "bytes_at file offset n = take n (drop offset file)"

fun le_uint :: "byte list \<Rightarrow> nat" where
  "le_uint [] = 0"
| "le_uint (b # bs) = unat b + 256 * le_uint bs"

definition ascii :: "string \<Rightarrow> byte list" where
  "ascii s = map of_char s"

text \<open>The 44 header bytes the writer produces for a payload of \<open>n\<close> bytes.\<close>

definition riff_header :: "nat \<Rightarrow> byte list" where
  "riff_header n =
     [0x52, 0x49, 0x46, 0x46,
      of_nat (36 + n), of_nat ((36 + n) div 256), of_nat ((36 + n) div 65536),
      of_nat ((36 + n) div 16777216),
      0x57, 0x41, 0x56, 0x45,
      0x66, 0x6D, 0x74, 0x20,
      16, 0, 0, 0,
      1, 0,
      1, 0,
      0xC0, 0x5D, 0, 0,
      0x80, 0xBB, 0, 0,
      2, 0,
      16, 0,
      0x64, 0x61, 0x74, 0x61,
      of_nat n, of_nat (n div 256), of_nat (n div 65536), of_nat (n div 16777216)]"

section \<open>The PCM decoder\<close>

text \<open>
  \<^verbatim>\<open>new Int16Array(pcmData.buffer)\<close> raises \<^verbatim>\<open>RangeError\<close> when the byte length of the
  buffer is not a multiple of 2, and otherwise reads the buffer as 16-bit signed integers in
  the byte order of the host, taken to be little-endian. \<^verbatim>\<open>createBuffer\<close> (Web Audio)
  raises \<^verbatim>\<open>NotSupportedError\<close> when an argument is zero (or outside the implementation's
  range, which the arguments 1 and 24000 of the only call are not), and otherwise returns a
  buffer of zeros. A sample is stored in a \<^verbatim>\<open>Float32Array\<close>; a 16-bit integer divided by
  \<open>2\<^sup>1\<^sup>5\<close> is represented exactly there, so samples are modelled as reals.
\<close>

fun int16_elements :: "byte list \<Rightarrow> 16 word list" where
  "int16_elements (lo # hi # rest) = word_cat hi lo # int16_elements rest"
| "int16_elements _ = []"

definition new_Int16Array :: "byte list \<Rightarrow> error + 16 word list" where
  "new_Int16Array buffer =
     (if length buffer mod 2 \<noteq> 0 then Inl RangeError else Inr (int16_elements buffer))"

record audio_buffer =
  numberOfChannels :: nat
  length_frames :: nat
  sampleRate :: nat
  channelData :: "real list list"

definition createBuffer :: "nat \<Rightarrow> nat \<Rightarrow> nat \<Rightarrow> error + audio_buffer" where
  "createBuffer numChannels len rate =
     (if numChannels = 0 \<or> len = 0 \<or> rate = 0 then Inl NotSupportedError
      else Inr \<lparr>numberOfChannels = numChannels, length_frames = len, sampleRate = rate,
                channelData = replicate numChannels (replicate len 0)\<rparr>)"

text \<open>The inner loop: \<^verbatim>\<open>channelData[i] = dataInt16[i * numChannels + channel] / 32768.0\<close>.\<close>

definition fill_channel :: "16 word list \<Rightarrow> nat \<Rightarrow> nat \<Rightarrow> nat \<Rightarrow> real list \<Rightarrow> real list" where
  "fill_channel dataInt16 numChannels channel frameCount data =
     fold (\<lambda>i data. data[i := real_of_int (sint (dataInt16 ! (i * numChannels + channel))) / 32768.0])
       [0..<frameCount] data"

definition decodePcmData :: "byte list \<Rightarrow> error + audio_buffer" where
  "decodePcmData pcmData =
     (let sampleRate = 24000;
          numChannels = 1
      in and_then (new_Int16Array pcmData) (\<lambda>dataInt16.
           let frameCount = length dataInt16 div numChannels
           in and_then (createBuffer numChannels frameCount sampleRate) (\<lambda>buffer.
                Inr (buffer\<lparr>channelData :=
                  fold (\<lambda>channel chans.
                          chans[channel := fill_channel dataInt16 numChannels channel frameCount
                                             (chans ! channel)])
                    [0..<numChannels] (channelData buffer)\<rparr>))))"

text \<open>The signed 16-bit value of a little-endian byte pair, written arithmetically.\<close>

definition int16_le :: "byte \<Rightarrow> byte \<Rightarrow> int" where
  "int16_le lo hi =
     (let v = int (unat lo) + 256 * int (unat hi) in if v < 32768 then v else v - 65536)"

section \<open>Application state and speech generation (\<^verbatim>\<open>App.tsx\<close>)\<close>

text \<open>
  The state hooks of \<^verbatim>\<open>App\<close>; the same values are the props of \<^verbatim>\<open>Summarizer\<close>. A file
  is identified by its name.
\<close>

record app_state =
  transcription :: string
  summary :: string
  audioFile :: "string option"
  isLoading :: bool
  loadingStep :: string
  error :: "string option"
  summaryAudio :: "string option"



section \<open>The playback controller (\<^verbatim>\<open>Summarizer.tsx\<close>)\<close>

text \<open>
  The component holds the state hook \<^verbatim>\<open>isPlaying\<close> and the reference
  \<^verbatim>\<open>audioSourceRef.current\<close>. In a handler the identifier \<^verbatim>\<open>isPlaying\<close> is the value
  the hook had at the last render; \<^verbatim>\<open>setIsPlaying\<close> changes the state of the hook, which the
  handlers read only after the next render, and a render may come at any point between two
  handlers. An assignment to \<^verbatim>\<open>audioSourceRef.current\<close> takes effect at once. The audio
  subsystem holds the source nodes that were
  started, numbered in the order of their creation: a node is playing, or \<^verbatim>\<open>stop()\<close> was
  called on it and its \<^verbatim>\<open>ended\<close> event is still to be dispatched, or the event was
  dispatched. The subsystem dispatches \<^verbatim>\<open>ended\<close> once for every started node, when its buffer
  has been played to the end or after \<^verbatim>\<open>stop()\<close> (Web Audio); \<^verbatim>\<open>stop()\<close> on a node that is
  not playing does nothing. A call of \<^verbatim>\<open>playBuffer\<close> is suspended at
  \<^verbatim>\<open>await audioContext.resume()\<close>; other handlers may run before it continues. The
  \<^verbatim>\<open>AudioContext\<close>, created on first use and kept, is not part of the state.
\<close>

datatype node_status = Playing | Stopped | Ended

record source_node =
  node_buffer :: audio_buffer
  status :: node_status

record summarizer =
  isPlaying :: bool
  isPlaying_state :: bool
  audioSourceRef :: "nat option"
  nodes :: "source_node list"
  suspended :: "string list"

definition initial :: summarizer where
  "initial = \<lparr>isPlaying = False, isPlaying_state = False, audioSourceRef = None, nodes = [],
               suspended = []\<rparr>"

definition setIsPlaying :: "bool \<Rightarrow> summarizer \<Rightarrow> summarizer" where
  "setIsPlaying v c = c\<lparr>isPlaying_state := v\<rparr>"

text \<open>A render: the handlers created by it read the state the hook has now.\<close>

definition render :: "summarizer \<Rightarrow> summarizer" where
  "render c = c\<lparr>isPlaying := isPlaying_state c\<rparr>"

definition set_status :: "nat \<Rightarrow> node_status \<Rightarrow> source_node list \<Rightarrow> source_node list" where
  "set_status n st ns = ns[n := (ns ! n)\<lparr>status := st\<rparr>]"

definition stop_node :: "nat \<Rightarrow> source_node list \<Rightarrow> source_node list" where
  "stop_node n ns =
     (if n < length ns \<and> status (ns ! n) = Playing then set_status n Stopped ns else ns)"

text \<open>\<^verbatim>\<open>audioSourceRef.current?.stop()\<close>\<close>

definition stop_current :: "summarizer \<Rightarrow> summarizer" where
  "stop_current c =
     (case audioSourceRef c of None \<Rightarrow> c | Some n \<Rightarrow> c\<lparr>nodes := stop_node n (nodes c)\<rparr>)"

text \<open>
  \<^verbatim>\<open>playSummaryAudio\<close> up to its first suspension. The second component of the result
  tells whether \<^verbatim>\<open>onGenerateSpeech\<close> is called. An empty string and \<^verbatim>\<open>null\<close> are both
  falsy.
\<close>

definition playSummaryAudio :: "app_state \<Rightarrow> summarizer \<Rightarrow> summarizer \<times> bool" where
  "playSummaryAudio props c =
     (if summary props = [] then (c, False)
      else if isPlaying c then (setIsPlaying False (stop_current c), False)
      else (case summaryAudio props of
              None \<Rightarrow> (c, True)
            | Some base64 \<Rightarrow>
                if base64 = [] then (c, True)
                else (c\<lparr>suspended := suspended c @ [base64]\<rparr>, False)))"

text \<open>
  \<^verbatim>\<open>playBuffer\<close> from \<^verbatim>\<open>await audioContext.resume()\<close> on; \<open>resumed\<close> tells
  whether that promise was fulfilled. An exception leaves the function before anything is
  assigned.
\<close>

definition playBuffer :: "string \<Rightarrow> bool \<Rightarrow> summarizer \<Rightarrow> summarizer" where
  "playBuffer base64 resumed c =
     (if \<not> resumed then c
      else (case decode base64 of
              Inl e \<Rightarrow> c
            | Inr pcmData \<Rightarrow>
                (case decodePcmData pcmData of
                   Inl e \<Rightarrow> c
                 | Inr decodedBuffer \<Rightarrow>
                     setIsPlaying True
                       (c\<lparr>nodes := nodes c @ [\<lparr>node_buffer = decodedBuffer, status = Playing\<rparr>],
                          audioSourceRef := Some (length (nodes c))\<rparr>))))"

text \<open>The handler \<^verbatim>\<open>source.onended\<close>.\<close>

definition onended :: "summarizer \<Rightarrow> summarizer" where
  "onended c = (setIsPlaying False c)\<lparr>audioSourceRef := None\<rparr>"

text \<open>The effect on \<^verbatim>\<open>[audioFile]\<close>, and the cleanup that runs when the component unmounts.\<close>

definition audioFileEffect :: "summarizer \<Rightarrow> summarizer" where
  "audioFileEffect c = (if isPlaying c then setIsPlaying False (stop_current c) else c)"

definition unmountCleanup :: "summarizer \<Rightarrow> summarizer" where
  "unmountCleanup c = stop_current c"

text \<open>
  The events of the component: \<^verbatim>\<open>playSummaryAudio\<close> is invoked (by the button or by the
  effect that plays generated audio) with the props of the moment; the \<open>i\<close>-th suspended
  \<^verbatim>\<open>playBuffer\<close> continues; the audio subsystem dispatches \<^verbatim>\<open>ended\<close> for node \<open>n\<close>; the
  effect on \<^verbatim>\<open>[audioFile]\<close> runs; the component renders. An event that is not enabled
  changes nothing.
\<close>

datatype event =
  PlayRequested app_state
| PlayBufferResumed nat bool
| SourceEnded nat
| AudioFileChanged
| Rendered

definition ended_pending :: "nat \<Rightarrow> summarizer \<Rightarrow> bool" where
  "ended_pending n c \<longleftrightarrow> n < length (nodes c) \<and> status (nodes c ! n) \<noteq> Ended"

fun step :: "summarizer \<Rightarrow> event \<Rightarrow> summarizer" where
  "step c (PlayRequested props) = fst (playSummaryAudio props c)"
| "step c (PlayBufferResumed i resumed) =
     (if i < length (suspended c)
      then playBuffer (suspended c ! i) resumed
             (c\<lparr>suspended := take i (suspended c) @ drop (Suc i) (suspended c)\<rparr>)
      else c)"
| "step c (SourceEnded n) =
     (if ended_pending n c then onended (c\<lparr>nodes := set_status n Ended (nodes c)\<rparr>) else c)"
| "step c AudioFileChanged = audioFileEffect c"
| "step c Rendered = render c"

definition run :: "summarizer \<Rightarrow> event list \<Rightarrow> summarizer" where
  "run c events = foldl step c events"

inductive reachable :: "summarizer \<Rightarrow> bool" where
  reachable_initial: "reachable initial"
| reachable_step: "reachable c \<Longrightarrow> reachable (step c e)"

text \<open>The sessions that are live: the nodes that are playing.\<close>

definition live :: "summarizer \<Rightarrow> nat list" where
  "live c = filter (\<lambda>n. status (nodes c ! n) = Playing) [0..<length (nodes c)]"




text \<open>
  The states reached when handlers do not overlap and the component renders after each of
  them: a play request made while not playing is followed by the continuation of its own
  \<^verbatim>\<open>playBuffer\<close> call and a render before anything else happens, and a stop is followed
  by the \<^verbatim>\<open>ended\<close> event of the node it stopped and a render; a node may also end by
  itself at any time, and a render follows.
\<close>

inductive sequential :: "summarizer \<Rightarrow> bool" where
  sequential_initial: "sequential initial"
| sequential_play:
    "sequential c \<Longrightarrow> \<not> isPlaying c \<Longrightarrow>
     sequential (run c [PlayRequested props, PlayBufferResumed 0 resumed, Rendered])"
| sequential_toggle:
    "sequential c \<Longrightarrow> isPlaying c \<Longrightarrow> audioSourceRef c = Some n \<Longrightarrow>
     sequential (run c [PlayRequested props, SourceEnded n, Rendered])"
| sequential_file:
    "sequential c \<Longrightarrow> isPlaying c \<Longrightarrow> audioSourceRef c = Some n \<Longrightarrow>
     sequential (run c [AudioFileChanged, SourceEnded n, Rendered])"
| sequential_ended: "sequential c \<Longrightarrow> sequential (run c [SourceEnded n, Rendered])"

text \<open>
  The invariant of these states: no call is suspended, the handlers read the state the hook
  has, no stopped node awaits its \<^verbatim>\<open>ended\<close> event, and a playing node is the one
  referenced while \<^verbatim>\<open>isPlaying\<close> is set.
\<close>

definition sequential_inv :: "summarizer \<Rightarrow> bool" where
  "sequential_inv c \<longleftrightarrow>
     suspended c = [] \<and> isPlaying c = isPlaying_state c \<and>
     (\<forall>m < length (nodes c).
        status (nodes c ! m) \<noteq> Stopped \<and>
        (status (nodes c ! m) = Playing \<longrightarrow> isPlaying_state c \<and> audioSourceRef c = Some m))"


text \<open>
  What the state of the hook and the reference say about the node referenced: the invariant
  of the reachable states.
\<close>

definition controller_inv :: "summarizer \<Rightarrow> bool" where
  "controller_inv c =
     (case audioSourceRef c of
        None \<Rightarrow> \<not> isPlaying_state c
      | Some n \<Rightarrow>
          n < length (nodes c) \<and> (isPlaying_state c \<longleftrightarrow> status (nodes c ! n) = Playing))"

text \<open>
  Example props: a summary with generated audio \<^verbatim>\<open>AAAB/w==\<close> (bytes 00 00 01 FF), and the
  same with audio \<^verbatim>\<open>AIA=\<close> (bytes 00 80).
\<close>

definition props_A :: app_state where
  "props_A = \<lparr>transcription = ''T'', summary = ''S'', audioFile = Some ''a.mp3'',
              isLoading = False, loadingStep = [], error = None,
              summaryAudio = Some ''AAAB/w==''\<rparr>"

definition props_B :: app_state where
  "props_B = props_A\<lparr>summaryAudio := Some ''AIA=''\<rparr>"

definition buffer_A :: audio_buffer where
  "buffer_A = \<lparr>numberOfChannels = 1, length_frames = 2, sampleRate = 24000,
               channelData = [[0, - 255 / 32768]]\<rparr>"

definition buffer_B :: audio_buffer where
  "buffer_B = \<lparr>numberOfChannels = 1, length_frames = 1, sampleRate = 24000, channelData = [[- 1]]\<rparr>"

section \<open>Auxiliary facts\<close>

subsection \<open>Base64 round trip\<close>

lemma split3:
  fixes a b c :: nat
  assumes "b < 256" "c < 256"
  shows "(a * 65536 + b * 256 + c) div 65536 = a"
    and "(a * 65536 + b * 256 + c) div 256 = a * 256 + b"
    and "(a * 65536 + b * 256 + c) mod 256 = c"
proof -
  define r where "r = b * 256 + c"
  define k where "k = a * 256 + b"
  have r: "r < 65536" using assms unfolding r_def by linarith
  have e1: "a * 65536 + b * 256 + c = r + a * 65536" by (simp add: r_def)
  have e2: "a * 65536 + b * 256 + c = c + k * 256" by (simp add: k_def)
  show "(a * 65536 + b * 256 + c) div 65536 = a" unfolding e1 using r by simp
  show "(a * 65536 + b * 256 + c) div 256 = a * 256 + b"
    unfolding e2 using assms by (simp add: k_def)
  show "(a * 65536 + b * 256 + c) mod 256 = c" unfolding e2 using assms by simp
qed

lemma sextets4:
  fixes n :: nat
  shows "((n div 262144 * 64 + n div 4096 mod 64) * 64 + n div 64 mod 64) * 64 + n mod 64 = n"
proof -
  have a: "n div 4096 = n div 64 div 64" by (simp add: div_mult2_eq)
  have b: "n div 262144 = n div 64 div 64 div 64" by (simp add: div_mult2_eq)
  show ?thesis unfolding a b by (simp add: div_mult_mod_eq)
qed

lemma sextets3:
  fixes n :: nat
  shows "((n div 262144 * 64 + n div 4096 mod 64) * 64 + n div 64 mod 64) div 4 = n div 256"
proof -
  have a: "n div 4096 = n div 64 div 64" by (simp add: div_mult2_eq)
  have b: "n div 262144 = n div 64 div 64 div 64" by (simp add: div_mult2_eq)
  have "(n div 262144 * 64 + n div 4096 mod 64) * 64 + n div 64 mod 64 = n div 64"
    unfolding a b by (simp add: div_mult_mod_eq)
  then show ?thesis by (simp add: div_mult2_eq)
qed

lemma sextets2:
  fixes n :: nat
  shows "(n div 262144 * 64 + n div 4096 mod 64) div 16 = n div 65536"
proof -
  have b: "n div 262144 = n div 4096 div 64" by (simp add: div_mult2_eq)
  have "n div 262144 * 64 + n div 4096 mod 64 = n div 4096"
    unfolding b by (simp add: div_mult_mod_eq)
  then show ?thesis by (simp add: div_mult2_eq)
qed

lemma unat_byte_bound: "unat (b :: byte) < 256"
  using unsigned_less [of b, where 'a = nat] by simp

lemma byte_of_nat_eq: "x mod 256 = unat b \<Longrightarrow> (of_nat x :: byte) = b"
proof -
  assume h: "x mod 256 = unat b"
  have "unat (of_nat x :: byte) = x mod 256" by (simp add: unat_of_nat)
  with h show ?thesis by (simp add: word_unat_eq_iff)
qed

lemma decode_encode_values: "decode_groups (encode_values bs) = bs"
proof (induction bs rule: encode_values.induct)
  case (1 a b c rest)
  define n where "n = unat a * 65536 + unat b * 256 + unat c"
  have bd: "unat a < 256" "unat b < 256" "unat c < 256" by (rule unat_byte_bound)+
  have "n div 65536 mod 256 = unat a" "n div 256 mod 256 = unat b" "n mod 256 = unat c"
    using bd unfolding n_def by (simp_all add: split3)
  then have "(of_nat (n div 65536) :: byte) = a" "(of_nat (n div 256) :: byte) = b"
    "(of_nat n :: byte) = c"
    by (simp_all add: byte_of_nat_eq)
  moreover have "decode_groups (encode_values (a # b # c # rest)) =
      [of_nat (n div 65536), of_nat (n div 256), of_nat n] @ decode_groups (encode_values rest)"
    by (simp only: encode_values.simps Let_def n_def[symmetric] append_Cons append_Nil
        decode_groups.simps sextets4)
  ultimately show ?case using 1 by simp
next
  case (2 a b)
  define n where "n = unat a * 65536 + unat b * 256"
  have bd: "unat a < 256" "unat b < 256" by (rule unat_byte_bound)+
  have "n div 256 = unat a * 256 + unat b"
    using split3(2) [of "unat b" 0 "unat a"] bd by (simp add: n_def)
  then have "n div 256 div 256 mod 256 = unat a" "n div 256 mod 256 = unat b"
    using bd by simp_all
  then have "(of_nat (n div 256 div 256) :: byte) = a" "(of_nat (n div 256) :: byte) = b"
    by (simp_all add: byte_of_nat_eq)
  moreover have "decode_groups (encode_values [a, b]) =
      [of_nat (n div 256 div 256), of_nat (n div 256)]"
    by (simp only: encode_values.simps Let_def n_def[symmetric]
        decode_groups.simps sextets3)
  ultimately show ?case by simp
next
  case (3 a)
  have bd: "unat a < 256" by (rule unat_byte_bound)
  then have "(of_nat (unat a * 65536 div 65536) :: byte) = a"
    by (simp add: byte_of_nat_eq)
  moreover have "decode_groups (encode_values [a]) = [of_nat (unat a * 65536 div 65536)]"
    by (simp only: encode_values.simps Let_def decode_groups.simps sextets2)
  ultimately show ?case by simp
next
  case 4
  show ?case by simp
qed

lemma alphabet_value_char: "v < 64 \<Longrightarrow> alphabet_value (alphabet_char v) = Some v"
  by (auto simp: alphabet_value_def alphabet_char_def Let_def)

lemma alphabet_value_Some:
  "alphabet_value c = Some v \<Longrightarrow> \<not> is_ascii_whitespace c \<and> c \<noteq> CHR ''=''"
  by (auto simp: alphabet_value_def is_ascii_whitespace_def Let_def split: if_splits)

lemma alphabet_char_not_ws: "v < 64 \<Longrightarrow> \<not> is_ascii_whitespace (alphabet_char v)"
  using alphabet_value_char alphabet_value_Some by blast

lemma alphabet_char_not_pad: "v < 64 \<Longrightarrow> alphabet_char v \<noteq> CHR ''=''"
  using alphabet_value_char alphabet_value_Some by blast

lemma encode_split: "base64Encode bs = map alphabet_char (encode_values bs) @ padding bs"
  by (induction bs rule: base64Encode.induct) (simp_all add: Let_def)

lemma encode_values_bound: "v \<in> set (encode_values bs) \<Longrightarrow> v < 64"
proof (induction bs rule: encode_values.induct)
  case (1 a b c rest)
  have "unat a < 256" "unat b < 256" "unat c < 256" by (rule unat_byte_bound)+
  then have "(unat a * 65536 + unat b * 256 + unat c) div 262144 < 64" by simp
  with 1 show ?case by (auto simp add: Let_def)
next
  case (2 a b)
  have "unat a < 256" "unat b < 256" by (rule unat_byte_bound)+
  then have "(unat a * 65536 + unat b * 256) div 262144 < 64" by simp
  with 2 show ?case by (auto simp add: Let_def)
next
  case (3 a)
  have "unat a < 256" by (rule unat_byte_bound)
  then have "(unat a * 65536) div 262144 < 64" by simp
  with 3 show ?case by (auto simp add: Let_def)
qed simp

lemma padding_cases: "padding bs = [] \<or> padding bs = ''='' \<or> padding bs = ''==''"
  by (induction bs rule: padding.induct) simp_all

lemma length_encode_padding:
  "\<exists>k. length (encode_values bs) + length (padding bs) = 4 * k"
proof (induction bs rule: encode_values.induct)
  case (1 a b c rest)
  then obtain k where "length (encode_values rest) + length (padding rest) = 4 * k" by blast
  then have "length (encode_values (a # b # c # rest)) + length (padding (a # b # c # rest))
      = 4 * Suc k"
    by (simp add: Let_def)
  then show ?case by blast
next
  case (2 a b)
  have "length (encode_values [a, b]) + length (padding [a, b]) = 4 * 1" by (simp add: Let_def)
  then show ?case by blast
next
  case (3 a)
  have "length (encode_values [a]) + length (padding [a]) = 4 * 1" by (simp add: Let_def)
  then show ?case by blast
next
  case 4
  have "length (encode_values []) + length (padding []) = 4 * 0" by simp
  then show ?case by blast
qed

lemma drop_last_two:
  assumes "2 \<le> length d" "drop (length d - 2) d = [x, y]"
  shows "last d = y"
proof -
  have "d = take (length d - 2) d @ [x, y]" using assms(2) append_take_drop_id by metis
  then have "last d = last (take (length d - 2) d @ [x, y])" by simp
  then show ?thesis by simp
qed

lemma remove_padding_none:
  assumes "CHR ''='' \<notin> set xs"
  shows "remove_padding xs = xs"
proof (cases "xs = []")
  case True
  then show ?thesis by (simp add: remove_padding_def)
next
  case False
  then have l: "last xs \<noteq> CHR ''=''" using assms last_in_set by metis
  then have "\<not> (2 \<le> length xs \<and> drop (length xs - 2) xs = ''=='')"
    using drop_last_two [of xs "CHR ''=''" "CHR ''=''"] by auto
  with l show ?thesis by (auto simp: remove_padding_def)
qed

lemma remove_padding_one:
  assumes "CHR ''='' \<notin> set xs" "length (xs @ ''='') mod 4 = 0"
  shows "remove_padding (xs @ ''='') = xs"
proof (cases xs rule: rev_cases)
  case Nil
  with assms show ?thesis by simp
next
  case (snoc ys y)
  with assms have "y \<noteq> CHR ''=''" by auto
  with snoc assms(2) show ?thesis by (simp add: remove_padding_def butlast_append)
qed

lemma remove_padding_two:
  assumes "length (xs @ ''=='') mod 4 = 0"
  shows "remove_padding (xs @ ''=='') = xs"
  using assms by (simp add: remove_padding_def)

lemma those_alphabet:
  "(\<And>v. v \<in> set vs \<Longrightarrow> v < 64) \<Longrightarrow> those (map alphabet_value (map alphabet_char vs)) = Some vs"
  by (induction vs) (simp_all add: alphabet_value_char)

lemma forgiving_base64_decode_encode: "forgiving_base64_decode (base64Encode bs) = Some bs"
proof -
  define xs where "xs = map alphabet_char (encode_values bs)"
  have enc: "base64Encode bs = xs @ padding bs" by (simp add: xs_def encode_split)
  have alpha: "\<not> is_ascii_whitespace c \<and> c \<noteq> CHR ''=''" if "c \<in> set xs" for c
  proof -
    from that obtain v where v: "v \<in> set (encode_values bs)" and c: "c = alphabet_char v"
      by (auto simp: xs_def)
    from v have "v < 64" by (rule encode_values_bound)
    then show ?thesis
      unfolding c by (simp add: alphabet_char_not_pad alphabet_char_not_ws)
  qed
  then have nopad: "CHR ''='' \<notin> set xs" by blast
  have "\<not> is_ascii_whitespace c" if "c \<in> set (padding bs)" for c
    using that padding_cases [of bs] by (auto simp: is_ascii_whitespace_def)
  with alpha have "\<forall>c \<in> set (xs @ padding bs). \<not> is_ascii_whitespace c"
    by auto
  then have f: "filter (\<lambda>c. \<not> is_ascii_whitespace c) (xs @ padding bs) = xs @ padding bs"
    by simp
  obtain k where k: "length xs + length (padding bs) = 4 * k"
    using length_encode_padding [of bs] by (auto simp: xs_def)
  have m: "length (xs @ padding bs) mod 4 = 0" by (simp only: length_append k mod_mult_self1_is_0)
  have r: "remove_padding (xs @ padding bs) = xs"
    using padding_cases [of bs]
  proof (elim disjE)
    assume "padding bs = []"
    then show ?thesis using nopad by (simp add: remove_padding_none)
  next
    assume p: "padding bs = ''=''"
    show ?thesis using m nopad unfolding p by (rule remove_padding_one [OF _ _, rotated])
  next
    assume p: "padding bs = ''==''"
    show ?thesis using m unfolding p by (rule remove_padding_two)
  qed
  have h: "(length xs mod 4 + length (padding bs)) mod 4 = 0"
    using m by (simp only: length_append mod_add_left_eq)
  have l: "length xs mod 4 \<noteq> 1"
  proof
    assume "length xs mod 4 = 1"
    with h have "(1 + length (padding bs)) mod 4 = 0" by simp
    then show False using padding_cases [of bs] by (elim disjE) simp_all
  qed
  have t: "those (map alphabet_value xs) = Some (encode_values bs)"
    unfolding xs_def using encode_values_bound by (rule those_alphabet)
  show ?thesis
    unfolding forgiving_base64_decode_def enc f Let_def r
    using l by (simp only: if_False t option.case decode_encode_values)
qed

lemma map_nth_of_char: "map (\<lambda>i. f (xs ! i)) [0..<length xs] = map f xs"
  by (rule nth_equalityI) simp_all

lemma byte_char_roundtrip: "(of_char (char_of (unat b)) :: byte) = b"
proof -
  have "(of_char (char_of (unat b)) :: byte) = of_nat (of_char (char_of (unat b)))"
    by (simp only: of_nat_of_char)
  also have "\<dots> = of_nat (unat b mod 256)" by (simp only: of_char_of)
  also have "\<dots> = b" using unat_byte_bound [of b] by simp
  finally show ?thesis .
qed

lemma byte_of_char_of: "(of_char (char_of (n::nat)) :: byte) = of_nat n"
proof -
  have "(of_char (char_of n) :: byte) = of_nat (of_char (char_of n))"
    by (simp only: of_nat_of_char)
  also have "\<dots> = of_nat (n mod 256)" by (simp only: of_char_of)
  also have "\<dots> = of_nat n" by (rule byte_of_nat_eq) (simp add: unat_of_nat)
  finally show ?thesis .
qed

subsection \<open>The WAV writer\<close>

lemma of_nat_unat_byte: "(of_nat (unat b) :: byte) = b" by simp

lemma copy_pcm_result:
  "length view = 44 + length pcmData \<Longrightarrow> i \<le> length pcmData \<Longrightarrow>
   copy_pcm view pcmData i = Inr (take (44 + i) view @ drop i pcmData)"
proof (induction view pcmData i rule: copy_pcm.induct)
  case (1 view pcmData i)
  show ?case
  proof (cases "i < length pcmData")
    case True
    let ?v = "view[44 + i := pcmData ! i]"
    have s: "setUint8 view (44 + i) (unat (pcmData ! i)) = Inr ?v"
      using True 1(2) by (simp add: setUint8_def)
    have "copy_pcm ?v pcmData (i + 1) = Inr (take (44 + (i + 1)) ?v @ drop (i + 1) pcmData)"
      using 1(1) [OF True, of ?v] True 1(2) by simp
    moreover have "take (44 + (i + 1)) ?v = take (44 + i) view @ [pcmData ! i]"
    proof -
      have "44 + i < length ?v" using True 1(2) by simp
      then have "take (Suc (44 + i)) ?v = take (44 + i) ?v @ [?v ! (44 + i)]"
        by (rule take_Suc_conv_app_nth)
      moreover have "?v ! (44 + i) = pcmData ! i" using True 1(2) by simp
      ultimately show ?thesis by simp
    qed
    moreover have "drop i pcmData = pcmData ! i # drop (i + 1) pcmData"
      using True by (simp add: Cons_nth_drop_Suc)
    ultimately show ?thesis
      using True by (subst copy_pcm.simps) (simp add: s and_then_def)
  next
    case False
    with 1(3) have "i = length pcmData" by simp
    then show ?thesis using 1(2) by (subst copy_pcm.simps) simp
  qed
qed

lemma zeros44:
  "replicate 44 (0::byte) =
     [0,0,0,0, 0,0,0,0, 0,0,0,0, 0,0,0,0, 0,0,0,0, 0,0,0,0, 0,0,0,0, 0,0,0,0, 0,0,0,0, 0,0,0,0,
      0,0,0,0]"
  by (simp add: numeral_eq_Suc)

lemma byte_numerals: "(24000 :: byte) = 192" "(48000 :: byte) = 128"
  by simp_all

lemma header_written:
  "and_then (writeString (replicate 44 0 @ rest) 0 ''RIFF'') (\<lambda>view.
         and_then (setUint32 view 4 (36 + n)) (\<lambda>view.
         and_then (writeString view 8 ''WAVE'') (\<lambda>view.
         and_then (writeString view 12 ''fmt '') (\<lambda>view.
         and_then (setUint32 view 16 16) (\<lambda>view.
         and_then (setUint16 view 20 1) (\<lambda>view.
         and_then (setUint16 view 22 1) (\<lambda>view.
         and_then (setUint32 view 24 24000) (\<lambda>view.
         and_then (setUint32 view 28 48000) (\<lambda>view.
         and_then (setUint16 view 32 2) (\<lambda>view.
         and_then (setUint16 view 34 16) (\<lambda>view.
         and_then (writeString view 36 ''data'') (\<lambda>view.
         and_then (setUint32 view 40 n) k)))))))))))) = k (riff_header n @ rest)"
  unfolding zeros44
  by (simp add: and_then_def setUint8_def setUint16_def setUint32_def riff_header_def
      byte_numerals)

lemma createWavBlob_bytes:
  "createWavBlob pcmData =
     Inr \<lparr>blob_bytes = riff_header (length pcmData) @ pcmData, blob_type = ''audio/wav''\<rparr>"
proof -
  let ?n = "length pcmData"
  have v: "replicate (44 + ?n) (0::byte) = replicate 44 0 @ replicate ?n 0"
    by (simp add: replicate_add)
  have l: "length (riff_header ?n) = 44" by (simp add: riff_header_def)
  have c: "copy_pcm (riff_header ?n @ replicate ?n 0) pcmData 0 = Inr (riff_header ?n @ pcmData)"
    using copy_pcm_result [of "riff_header ?n @ replicate ?n 0" pcmData 0] l by simp
  have a: "(1 * 16) div 8 = (2::nat)" "24000 * 2 = (48000::nat)" by simp_all
  show ?thesis
    unfolding createWavBlob_def Let_def v a header_written c
    by (simp add: and_then_def)
qed

lemma le_uint_4:
  "le_uint [of_nat v, of_nat (v div 256), of_nat (v div 65536), of_nat (v div 16777216)]
     = v mod 4294967296"
proof -
  have b: "unat (of_nat x :: byte) = x mod 256" for x by (simp add: unat_of_nat)
  have d: "v div 65536 = v div 256 div 256" "v div 16777216 = v div 256 div 256 div 256"
    by (simp_all add: div_mult2_eq)
  have "v mod 4294967296 = v mod 256 + 256 * (v div 256 mod 16777216)"
    using mod_mult2_eq [of v 256 16777216] by simp
  also have "v div 256 mod 16777216 = v div 256 mod 256 + 256 * (v div 256 div 256 mod 65536)"
    using mod_mult2_eq [of "v div 256" 256 65536] by simp
  also have "v div 256 div 256 mod 65536
      = v div 256 div 256 mod 256 + 256 * (v div 256 div 256 div 256 mod 256)"
    using mod_mult2_eq [of "v div 256 div 256" 256 256] by simp
  finally show ?thesis unfolding d by (simp add: b)
qed

lemma le_uint_2: "le_uint [of_nat v, of_nat (v div 256)] = v mod 65536"
proof -
  have b: "unat (of_nat x :: byte) = x mod 256" for x by (simp add: unat_of_nat)
  have "v mod 65536 = v mod 256 + 256 * (v div 256 mod 256)"
    using mod_mult2_eq [of v 256 256] by simp
  then show ?thesis by (simp add: b)
qed

lemma riff_header_length: "length (riff_header n) = 44"
  by (simp add: riff_header_def)

lemma riff_header_tags:
  "bytes_at (riff_header n @ pcm) 0 4 = ascii ''RIFF''"
  "bytes_at (riff_header n @ pcm) 8 4 = ascii ''WAVE''"
  "bytes_at (riff_header n @ pcm) 12 4 = ascii ''fmt ''"
  "bytes_at (riff_header n @ pcm) 36 4 = ascii ''data''"
  by (simp_all add: riff_header_def bytes_at_def ascii_def)

lemma riff_header_format:
  "le_uint (bytes_at (riff_header n @ pcm) 16 4) = 16"
  "le_uint (bytes_at (riff_header n @ pcm) 20 2) = 1"
  "le_uint (bytes_at (riff_header n @ pcm) 22 2) = 1"
  "le_uint (bytes_at (riff_header n @ pcm) 24 4) = 24000"
  "le_uint (bytes_at (riff_header n @ pcm) 28 4) = 48000"
  "le_uint (bytes_at (riff_header n @ pcm) 32 2) = 2"
  "le_uint (bytes_at (riff_header n @ pcm) 34 2) = 16"
  by (simp_all add: riff_header_def bytes_at_def)

lemma riff_header_sizes:
  "le_uint (bytes_at (riff_header n @ pcm) 4 4) = (36 + n) mod 4294967296"
  "le_uint (bytes_at (riff_header n @ pcm) 40 4) = n mod 4294967296"
proof -
  have "bytes_at (riff_header n @ pcm) 4 4 =
      [of_nat (36 + n), of_nat ((36 + n) div 256), of_nat ((36 + n) div 65536),
       of_nat ((36 + n) div 16777216)]"
    by (simp add: riff_header_def bytes_at_def)
  then show "le_uint (bytes_at (riff_header n @ pcm) 4 4) = (36 + n) mod 4294967296"
    by (simp only: le_uint_4)
  have "bytes_at (riff_header n @ pcm) 40 4 =
      [of_nat n, of_nat (n div 256), of_nat (n div 65536), of_nat (n div 16777216)]"
    by (simp add: riff_header_def bytes_at_def)
  then show "le_uint (bytes_at (riff_header n @ pcm) 40 4) = n mod 4294967296"
    by (simp only: le_uint_4)
qed

subsection \<open>The PCM decoder\<close>

lemma uint_word_cat_bytes:
  "uint (word_cat hi lo :: 16 word) = uint lo + 256 * uint hi"
  for hi lo :: byte
proof -
  define x where "x = uint lo + 256 * uint hi"
  have l: "0 \<le> uint lo" "uint lo < 256" "0 \<le> uint hi" "uint hi < 256"
    using uint_lt2p [of lo] uint_lt2p [of hi] by simp_all
  have c: "concat_bit 8 (uint lo) (uint hi) = x"
    using l by (simp add: concat_bit_eq take_bit_int_eq_self push_bit_eq_mult x_def)
  have "(word_cat hi lo :: 16 word) = word_of_int (concat_bit 8 (uint lo) (uint hi))"
    by (simp add: word_cat_eq')
  then have "(word_cat hi lo :: 16 word) = word_of_int x" by (simp only: c)
  then have "uint (word_cat hi lo :: 16 word) = x mod 2 ^ 16"
    by (simp only: uint_word_of_int) simp
  moreover have "x mod 2 ^ 16 = x" using l by (simp add: x_def)
  ultimately show ?thesis by (simp only: x_def)
qed

lemma sint_word_cat_bytes:
  "sint (word_cat hi lo :: 16 word) = int16_le lo hi"
  for hi lo :: byte
proof -
  define v where "v = uint lo + 256 * uint hi"
  have l: "0 \<le> uint lo" "uint lo < 256" "0 \<le> uint hi" "uint hi < 256"
    using uint_lt2p [of lo] uint_lt2p [of hi] by simp_all
  then have r: "0 \<le> v" "v < 65536" by (simp_all add: v_def)
  have b: "bit v 15 \<longleftrightarrow> 32768 \<le> v"
  proof -
    have "v div 32768 = (if 32768 \<le> v then 1 else 0)"
    proof (cases "32768 \<le> v")
      case True
      have "v div 32768 = ((v - 32768) + 32768) div 32768" by simp
      also have "\<dots> = (v - 32768) div 32768 + 1" by (rule div_add_self2) simp
      also have "\<dots> = 1" using True r by simp
      finally show ?thesis using True by simp
    next
      case False
      then show ?thesis using r by simp
    qed
    then show ?thesis by (simp add: bit_iff_odd)
  qed
  have "sint (word_cat hi lo :: 16 word) = signed_take_bit 15 v"
    by (simp add: sint_uint uint_word_cat_bytes v_def)
  also have "\<dots> = take_bit 16 v - 65536 * of_bool (bit v 15)"
    by (simp add: signed_take_bit_eq_take_bit_minus)
  also have "\<dots> = (if v < 32768 then v else v - 65536)"
    using r b by (simp add: take_bit_int_eq_self)
  finally show ?thesis by (simp add: int16_le_def v_def Let_def)
qed

lemma fold_update_prefix:
  "k \<le> length data \<Longrightarrow>
   fold (\<lambda>i d. d[i := f i]) [0..<k] data = map f [0..<k] @ drop k data"
proof (induction k)
  case 0
  then show ?case by simp
next
  case (Suc k)
  then have "k < length data" by simp
  then have "(map f [0..<k] @ drop k data)[k := f k] = map f [0..<k] @ f k # drop (Suc k) data"
    by (simp add: list_update_append Cons_nth_drop_Suc [symmetric])
  with Suc show ?case by simp
qed

lemma fold_update_all:
  "length data = n \<Longrightarrow> fold (\<lambda>i d. d[i := f i]) [0..<n] data = map f [0..<n]"
  using fold_update_prefix [of n data f] by simp

lemma int16_elements_even:
  "even (length pcm) \<Longrightarrow>
   length (int16_elements pcm) = length pcm div 2 \<and>
   (\<forall>i < length pcm div 2. int16_elements pcm ! i = word_cat (pcm ! (2 * i + 1)) (pcm ! (2 * i)))"
proof (induction pcm rule: int16_elements.induct)
  case (1 lo hi rest)
  then have ih: "length (int16_elements rest) = length rest div 2"
    "\<And>i. i < length rest div 2 \<Longrightarrow>
       int16_elements rest ! i = word_cat (rest ! (2 * i + 1)) (rest ! (2 * i))"
    by simp_all
  show ?case
  proof (intro conjI allI impI)
    show "length (int16_elements (lo # hi # rest)) = length (lo # hi # rest) div 2"
      using ih(1) by simp
  next
    fix i assume "i < length (lo # hi # rest) div 2"
    then show "int16_elements (lo # hi # rest) ! i =
        word_cat ((lo # hi # rest) ! (2 * i + 1)) ((lo # hi # rest) ! (2 * i))"
      using ih(2) [of "i - 1"] by (cases i) simp_all
  qed
qed simp_all

lemma decodePcmData_even:
  assumes "even (length pcm)" "pcm \<noteq> []"
  shows "decodePcmData pcm =
    Inr \<lparr>numberOfChannels = 1, length_frames = length pcm div 2, sampleRate = 24000,
         channelData =
           [map (\<lambda>i. real_of_int (int16_le (pcm ! (2 * i)) (pcm ! (2 * i + 1))) / 32768)
              [0..<length pcm div 2]]\<rparr>"
proof -
  let ?n = "length pcm div 2"
  let ?d = "int16_elements pcm"
  have n: "?n \<noteq> 0" using assms by (cases pcm) auto
  have len: "length ?d = ?n" using int16_elements_even [OF assms(1)] by simp
  have el: "sint (?d ! i) = int16_le (pcm ! (2 * i)) (pcm ! (2 * i + 1))" if "i < ?n" for i
    using int16_elements_even [OF assms(1)] that by (simp add: sint_word_cat_bytes)
  have i16: "new_Int16Array pcm = Inr ?d"
    using assms(1) by (simp add: new_Int16Array_def even_iff_mod_2_eq_zero)
  have cb: "createBuffer 1 ?n 24000 =
      Inr \<lparr>numberOfChannels = 1, length_frames = ?n, sampleRate = 24000,
           channelData = [replicate ?n 0]\<rparr>"
    using n by (simp add: createBuffer_def)
  have fc: "fill_channel ?d 1 0 ?n (replicate ?n 0) =
      map (\<lambda>i. real_of_int (int16_le (pcm ! (2 * i)) (pcm ! (2 * i + 1))) / 32768) [0..<?n]"
  proof -
    have "fill_channel ?d 1 0 ?n (replicate ?n 0) =
        map (\<lambda>i. real_of_int (sint (?d ! i)) / 32768) [0..<?n]"
      unfolding fill_channel_def
      using fold_update_all [of "replicate ?n (0::real)" ?n
          "\<lambda>i. real_of_int (sint (?d ! i)) / 32768"]
      by simp
    also have "\<dots> = map (\<lambda>i. real_of_int (int16_le (pcm ! (2 * i)) (pcm ! (2 * i + 1))) / 32768)
        [0..<?n]"
      by (rule map_cong) (simp_all add: el)
    finally show ?thesis .
  qed
  have cb': "createBuffer (Suc 0) ?n 24000 =
      Inr \<lparr>numberOfChannels = 1, length_frames = ?n, sampleRate = 24000,
           channelData = [replicate ?n 0]\<rparr>"
    using cb by simp
  have fc': "fill_channel ?d (Suc 0) 0 ?n (replicate ?n 0) =
      map (\<lambda>i. real_of_int (int16_le (pcm ! (2 * i)) (pcm ! (2 * i + 1))) / 32768) [0..<?n]"
    using fc by simp
  show ?thesis
    unfolding decodePcmData_def Let_def i16 and_then_def
    by (simp add: len cb' fc')
qed

subsection \<open>The playback controller\<close>

lemma decode_A: "decode ''AAAB/w=='' = Inr [0x00, 0x00, 0x01, 0xFF]"
  by (simp add: decode_def atob_def forgiving_base64_decode_def remove_padding_def
      is_ascii_whitespace_def alphabet_value_def byte_of_char_of)

lemma decode_B: "decode ''AIA='' = Inr [0x00, 0x80]"
  by (simp add: decode_def atob_def forgiving_base64_decode_def remove_padding_def
      is_ascii_whitespace_def alphabet_value_def byte_of_char_of)

lemma decodePcmData_A: "decodePcmData [0x00, 0x00, 0x01, 0xFF] = Inr buffer_A"
  using decodePcmData_even [of "[0x00, 0x00, 0x01, 0xFF]"]
  by (simp add: int16_le_def upt_rec buffer_A_def)

lemma decodePcmData_B: "decodePcmData [0x00, 0x80] = Inr buffer_B"
  using decodePcmData_even [of "[0x00, 0x80]"]
  by (simp add: int16_le_def buffer_B_def)

lemma playBuffer_A:
  "playBuffer ''AAAB/w=='' True c =
     c\<lparr>nodes := nodes c @ [\<lparr>node_buffer = buffer_A, status = Playing\<rparr>],
       audioSourceRef := Some (length (nodes c)), isPlaying_state := True\<rparr>"
  by (simp add: playBuffer_def decode_A decodePcmData_A setIsPlaying_def)

lemma playBuffer_B:
  "playBuffer ''AIA='' True c =
     c\<lparr>nodes := nodes c @ [\<lparr>node_buffer = buffer_B, status = Playing\<rparr>],
       audioSourceRef := Some (length (nodes c)), isPlaying_state := True\<rparr>"
  by (simp add: playBuffer_def decode_B decodePcmData_B setIsPlaying_def)

lemma length_stop_node [simp]: "length (stop_node n ns) = length ns"
  by (simp add: stop_node_def set_status_def)

lemma status_stop_node:
  "m < length ns \<Longrightarrow>
   status (stop_node n ns ! m) = (if m = n \<and> status (ns ! m) = Playing then Stopped else status (ns ! m))"
  by (auto simp: stop_node_def set_status_def nth_list_update)

lemma stop_node_idle: "n < length ns \<Longrightarrow> status (ns ! n) \<noteq> Playing \<Longrightarrow> stop_node n ns = ns"
  by (simp add: stop_node_def)

lemma stop_node_idem: "stop_node n (stop_node n ns) = stop_node n ns"
  by (simp add: stop_node_def set_status_def)

lemma stop_current_fields [simp]:
  "isPlaying (stop_current c) = isPlaying c"
  "isPlaying_state (stop_current c) = isPlaying_state c"
  "audioSourceRef (stop_current c) = audioSourceRef c"
  "suspended (stop_current c) = suspended c"
  "length (nodes (stop_current c)) = length (nodes c)"
  by (cases "audioSourceRef c"; simp add: stop_current_def)+

lemma stop_current_idem: "stop_current (stop_current c) = stop_current c"
  by (cases "audioSourceRef c") (simp_all add: stop_current_def stop_node_idem)

lemma controller_inv_initial: "controller_inv initial"
  by (simp add: controller_inv_def initial_def)

lemma controller_inv_stop:
  "controller_inv c \<Longrightarrow> controller_inv (setIsPlaying False (stop_current c))"
  by (auto simp: controller_inv_def stop_current_def setIsPlaying_def status_stop_node
      split: option.splits)

lemma controller_inv_playBuffer:
  "controller_inv c \<Longrightarrow> controller_inv (playBuffer base64 resumed c)"
  by (auto simp: controller_inv_def playBuffer_def setIsPlaying_def nth_append
      split: option.splits sum.splits)

lemma controller_inv_suspended [simp]:
  "controller_inv (c\<lparr>suspended := xs\<rparr>) = controller_inv c"
  by (simp add: controller_inv_def split: option.splits)

lemma controller_inv_render [simp]: "controller_inv (render c) = controller_inv c"
  by (simp add: controller_inv_def render_def split: option.splits)

lemma controller_inv_step: "controller_inv c \<Longrightarrow> controller_inv (step c e)"
proof (cases e)
  case (PlayRequested props)
  assume "controller_inv c"
  then show ?thesis
    using controller_inv_stop [of c]
    by (simp add: PlayRequested playSummaryAudio_def split: option.splits)
next
  case (PlayBufferResumed i resumed)
  assume "controller_inv c"
  then show ?thesis
    by (simp add: PlayBufferResumed controller_inv_playBuffer)
next
  case (SourceEnded n)
  assume "controller_inv c"
  then show ?thesis
    by (simp add: SourceEnded onended_def setIsPlaying_def controller_inv_def
        split: option.splits)
next
  case AudioFileChanged
  assume "controller_inv c"
  then show ?thesis
    using controller_inv_stop [of c]
    by (simp add: AudioFileChanged audioFileEffect_def)
next
  case Rendered
  assume "controller_inv c"
  then show ?thesis by (simp add: Rendered)
qed

lemma reachable_inv: "reachable c \<Longrightarrow> controller_inv c"
  by (induction rule: reachable.induct) (simp_all add: controller_inv_initial controller_inv_step)

lemma reachable_run: "reachable c \<Longrightarrow> reachable (run c events)"
proof (induction events arbitrary: c)
  case Nil
  then show ?case by (simp add: run_def)
next
  case (Cons e events)
  from Cons.prems have "reachable (step c e)" by (rule reachable_step)
  then have "reachable (run (step c e) events)" by (rule Cons.IH)
  then show ?case by (simp add: run_def)
qed

lemma run_append: "run c (xs @ ys) = run (run c xs) ys"
  by (simp add: run_def)

lemma run_single: "run c [e] = step c e"
  by (simp add: run_def)

lemma run_Cons: "run c (e # es) = run (step c e) es"
  by (simp add: run_def)

lemma live_stop_current:
  "audioSourceRef c = Some n \<Longrightarrow>
   live (setIsPlaying b (stop_current c)) = filter (\<lambda>m. m \<noteq> n) (live c)"
proof -
  assume r: "audioSourceRef c = Some n"
  have "filter (\<lambda>m. status (stop_node n (nodes c) ! m) = Playing) [0..<length (nodes c)]
      = filter (\<lambda>m. status (nodes c ! m) = Playing \<and> m \<noteq> n) [0..<length (nodes c)]"
    by (rule filter_cong) (auto simp: status_stop_node)
  then show ?thesis
    by (simp add: live_def stop_current_def setIsPlaying_def r conj_commute)
qed

lemma live_stop_current_None:
  "audioSourceRef c = None \<Longrightarrow> live (setIsPlaying b (stop_current c)) = live c"
  by (simp add: live_def stop_current_def setIsPlaying_def)

lemma live_started:
  "live (c\<lparr>nodes := nodes c @ [\<lparr>node_buffer = buffer, status = Playing\<rparr>],
           audioSourceRef := r, isPlaying_state := b\<rparr>) = live c @ [length (nodes c)]"
proof -
  have "filter (\<lambda>m. status ((nodes c @ [\<lparr>node_buffer = buffer, status = Playing\<rparr>]) ! m) = Playing)
          [0..<length (nodes c)]
      = filter (\<lambda>m. status (nodes c ! m) = Playing) [0..<length (nodes c)]"
    by (rule filter_cong) (simp_all add: nth_append)
  then show ?thesis by (simp add: live_def)
qed

lemma live_render [simp]: "live (render c) = live c"
  by (simp add: live_def render_def)

lemma node_buffer_stop_node: "map node_buffer (stop_node n ns) = map node_buffer ns"
proof (rule nth_equalityI)
  show "length (map node_buffer (stop_node n ns)) = length (map node_buffer ns)" by simp
next
  fix i assume "i < length (map node_buffer (stop_node n ns))"
  then show "map node_buffer (stop_node n ns) ! i = map node_buffer ns ! i"
    by (auto simp: stop_node_def set_status_def nth_list_update)
qed

lemma props_fields:
  "summary props_A = ''S''" "summaryAudio props_A = Some ''AAAB/w==''"
  "summary props_B = ''S''" "summaryAudio props_B = Some ''AIA=''"
  by (simp_all add: props_A_def props_B_def)

lemma trace_play:
  "run initial [PlayRequested props_A, PlayBufferResumed 0 True] =
     \<lparr>isPlaying = False, isPlaying_state = True, audioSourceRef = Some 0,
      nodes = [\<lparr>node_buffer = buffer_A, status = Playing\<rparr>], suspended = []\<rparr>"
  by (simp add: run_def initial_def playSummaryAudio_def props_fields playBuffer_A playBuffer_B
      stop_current_def stop_node_def set_status_def setIsPlaying_def render_def
      ended_pending_def onended_def)

lemma trace_play_rendered:
  "run initial [PlayRequested props_A, PlayBufferResumed 0 True, Rendered] =
     \<lparr>isPlaying = True, isPlaying_state = True, audioSourceRef = Some 0,
      nodes = [\<lparr>node_buffer = buffer_A, status = Playing\<rparr>], suspended = []\<rparr>"
  by (simp add: run_def initial_def playSummaryAudio_def props_fields playBuffer_A playBuffer_B
      stop_current_def stop_node_def set_status_def setIsPlaying_def render_def
      ended_pending_def onended_def)

lemma trace_play_stop:
  "run initial [PlayRequested props_A, PlayBufferResumed 0 True, Rendered,
                PlayRequested props_B] =
     \<lparr>isPlaying = True, isPlaying_state = False, audioSourceRef = Some 0,
      nodes = [\<lparr>node_buffer = buffer_A, status = Stopped\<rparr>], suspended = []\<rparr>"
  by (simp add: run_def initial_def playSummaryAudio_def props_fields playBuffer_A playBuffer_B
      stop_current_def stop_node_def set_status_def setIsPlaying_def render_def
      ended_pending_def onended_def)

lemma trace_play_stop_rendered:
  "run initial [PlayRequested props_A, PlayBufferResumed 0 True, Rendered,
                PlayRequested props_B, Rendered] =
     \<lparr>isPlaying = False, isPlaying_state = False, audioSourceRef = Some 0,
      nodes = [\<lparr>node_buffer = buffer_A, status = Stopped\<rparr>], suspended = []\<rparr>"
  by (simp add: run_def initial_def playSummaryAudio_def props_fields playBuffer_A playBuffer_B
      stop_current_def stop_node_def set_status_def setIsPlaying_def render_def
      ended_pending_def onended_def)

lemma trace_play_play:
  "run initial [PlayRequested props_A, PlayBufferResumed 0 True,
                PlayRequested props_B, PlayBufferResumed 0 True] =
     \<lparr>isPlaying = False, isPlaying_state = True, audioSourceRef = Some 1,
      nodes = [\<lparr>node_buffer = buffer_A, status = Playing\<rparr>,
               \<lparr>node_buffer = buffer_B, status = Playing\<rparr>],
      suspended = []\<rparr>"
  by (simp add: run_def initial_def playSummaryAudio_def props_fields playBuffer_A playBuffer_B
      stop_current_def stop_node_def set_status_def setIsPlaying_def render_def
      ended_pending_def onended_def)

lemma trace_overlap:
  "run initial [PlayRequested props_A, PlayRequested props_B,
                PlayBufferResumed 0 True, PlayBufferResumed 0 True] =
     \<lparr>isPlaying = False, isPlaying_state = True, audioSourceRef = Some 1,
      nodes = [\<lparr>node_buffer = buffer_A, status = Playing\<rparr>,
               \<lparr>node_buffer = buffer_B, status = Playing\<rparr>],
      suspended = []\<rparr>"
  by (simp add: run_def initial_def playSummaryAudio_def props_fields playBuffer_A playBuffer_B
      stop_current_def stop_node_def set_status_def setIsPlaying_def render_def
      ended_pending_def onended_def)


lemma trace_play_ended:
  "run initial [PlayRequested props_A, PlayBufferResumed 0 True, Rendered, SourceEnded 0] =
     \<lparr>isPlaying = True, isPlaying_state = False, audioSourceRef = None,
      nodes = [\<lparr>node_buffer = buffer_A, status = Ended\<rparr>], suspended = []\<rparr>"
  by (simp add: run_def initial_def playSummaryAudio_def props_fields playBuffer_A playBuffer_B
      stop_current_def stop_node_def set_status_def setIsPlaying_def render_def
      ended_pending_def onended_def)

lemma sequential_inv_initial: "sequential_inv initial"
  by (simp add: sequential_inv_def initial_def)

lemma sequential_inv_ended:
  assumes "sequential_inv c"
  shows "sequential_inv (render (step c (SourceEnded n)))"
proof (cases "ended_pending n c")
  case False
  with assms show ?thesis by (auto simp: sequential_inv_def render_def)
next
  case True
  then have n: "n < length (nodes c)" "status (nodes c ! n) \<noteq> Ended"
    by (simp_all add: ended_pending_def)
  with assms have "status (nodes c ! n) = Playing"
    by (cases "status (nodes c ! n)") (simp_all add: sequential_inv_def)
  with assms n have r: "audioSourceRef c = Some n" by (simp add: sequential_inv_def)
  have "status (set_status n Ended (nodes c) ! m) \<noteq> Stopped \<and>
      status (set_status n Ended (nodes c) ! m) \<noteq> Playing"
    if "m < length (nodes c)" for m
    using that assms r by (cases "m = n") (auto simp: set_status_def sequential_inv_def)
  then show ?thesis
    using True assms
    by (simp add: sequential_inv_def onended_def set_status_def setIsPlaying_def render_def)
qed

lemma sequential_inv_play:
  assumes "sequential_inv c" "\<not> isPlaying c"
  shows "sequential_inv (run c [PlayRequested props, PlayBufferResumed 0 resumed, Rendered])"
proof -
  from assms have idle: "\<forall>m < length (nodes c). status (nodes c ! m) = Ended"
    by (metis node_status.exhaust sequential_inv_def)
  from assms have s: "suspended c = []" "\<not> isPlaying_state c"
    by (simp_all add: sequential_inv_def)
  have keep: "sequential_inv (render (c\<lparr>suspended := []\<rparr>))"
    using assms(1) by (simp add: sequential_inv_def render_def)
  have start: "sequential_inv
      (render (c\<lparr>suspended := [],
         nodes := nodes c @ [\<lparr>node_buffer = buffer, status = Playing\<rparr>],
         audioSourceRef := Some (length (nodes c)), isPlaying_state := True\<rparr>))" for buffer
    using idle by (auto simp: sequential_inv_def render_def nth_append less_Suc_eq)
  have same: "sequential_inv (render c)"
    using assms(1) by (simp add: sequential_inv_def render_def)
  show ?thesis
    using assms s keep start same
    by (auto simp: run_def playSummaryAudio_def playBuffer_def setIsPlaying_def
        split: option.splits sum.splits)
qed

lemma sequential_inv_stop:
  assumes "sequential_inv c" "controller_inv c" "isPlaying c" "audioSourceRef c = Some n"
  shows "sequential_inv (render (step (setIsPlaying False (stop_current c)) (SourceEnded n)))"
proof -
  from assms have "isPlaying_state c" by (simp add: sequential_inv_def)
  with assms have n: "n < length (nodes c)" "status (nodes c ! n) = Playing"
    by (simp_all add: controller_inv_def)
  let ?c1 = "setIsPlaying False (stop_current c)"
  have c1: "?c1 = c\<lparr>nodes := set_status n Stopped (nodes c), isPlaying_state := False\<rparr>"
    using assms(4) n by (simp add: stop_current_def stop_node_def setIsPlaying_def)
  have p: "ended_pending n ?c1"
    unfolding c1 using n by (simp add: ended_pending_def set_status_def)
  have "status (set_status n Ended (set_status n Stopped (nodes c)) ! m) \<noteq> Stopped \<and>
      status (set_status n Ended (set_status n Stopped (nodes c)) ! m) \<noteq> Playing"
    if "m < length (nodes c)" for m
    using that assms(1,4) by (cases "m = n") (auto simp: set_status_def sequential_inv_def)
  then show ?thesis
    using p assms(1) unfolding c1
    by (simp add: sequential_inv_def onended_def set_status_def setIsPlaying_def render_def)
qed

lemma run3: "run c [e1, e2, e3] = step (step (step c e1) e2) e3"
  by (simp add: run_def)

lemma run2: "run c [e1, e2] = step (step c e1) e2"
  by (simp add: run_def)

lemma sequential_invs: "sequential c \<Longrightarrow> sequential_inv c \<and> controller_inv c"
proof (induction rule: sequential.induct)
  case sequential_initial
  show ?case by (simp add: sequential_inv_initial controller_inv_initial)
next
  case (sequential_play c props resumed)
  then have "sequential_inv (run c [PlayRequested props, PlayBufferResumed 0 resumed, Rendered])"
    by (simp add: sequential_inv_play)
  moreover have "controller_inv (run c [PlayRequested props, PlayBufferResumed 0 resumed,
      Rendered])"
    using sequential_play.IH by (simp add: run3 controller_inv_step del: step.simps)
  ultimately show ?case by simp
next
  case (sequential_toggle c n props)
  have i: "controller_inv (run c [PlayRequested props, SourceEnded n, Rendered])"
    using sequential_toggle.IH by (simp add: run3 controller_inv_step del: step.simps)
  have "sequential_inv (run c [PlayRequested props, SourceEnded n, Rendered])"
  proof (cases "summary props = []")
    case True
    then have "step c (PlayRequested props) = c" by (simp add: playSummaryAudio_def)
    then have "run c [PlayRequested props, SourceEnded n, Rendered]
        = render (step c (SourceEnded n))"
      by (simp add: run3 del: step.simps) simp
    then show ?thesis
      using sequential_toggle.IH by (simp add: sequential_inv_ended del: step.simps)
  next
    case False
    with sequential_toggle.hyps
    have "step c (PlayRequested props) = setIsPlaying False (stop_current c)"
      by (simp add: playSummaryAudio_def)
    then have "run c [PlayRequested props, SourceEnded n, Rendered]
        = render (step (setIsPlaying False (stop_current c)) (SourceEnded n))"
      by (simp add: run3 del: step.simps) simp
    then show ?thesis
      using sequential_toggle by (simp add: sequential_inv_stop del: step.simps)
  qed
  with i show ?case by simp
next
  case (sequential_file c n)
  have i: "controller_inv (run c [AudioFileChanged, SourceEnded n, Rendered])"
    using sequential_file.IH by (simp add: run3 controller_inv_step del: step.simps)
  from sequential_file.hyps
  have "step c AudioFileChanged = setIsPlaying False (stop_current c)"
    by (simp add: audioFileEffect_def)
  then have "run c [AudioFileChanged, SourceEnded n, Rendered]
      = render (step (setIsPlaying False (stop_current c)) (SourceEnded n))"
    by (simp add: run3 del: step.simps) simp
  then have "sequential_inv (run c [AudioFileChanged, SourceEnded n, Rendered])"
    using sequential_file by (simp add: sequential_inv_stop del: step.simps)
  with i show ?case by simp
next
  case (sequential_ended c n)
  have "controller_inv (run c [SourceEnded n, Rendered])"
    using sequential_ended.IH by (simp add: run2 controller_inv_step del: step.simps)
  moreover have "run c [SourceEnded n, Rendered] = render (step c (SourceEnded n))"
    by (simp add: run2 del: step.simps) simp
  ultimately show ?case
    using sequential_ended.IH by (simp add: sequential_inv_ended del: step.simps)
qed

lemma distinct_all_equal: "distinct xs \<Longrightarrow> \<forall>x \<in> set xs. x = n \<Longrightarrow> length xs \<le> 1"
proof (cases xs)
  case Nil
  then show ?thesis by simp
next
  case (Cons x ys)
  assume "distinct xs" "\<forall>x \<in> set xs. x = n"
  with Cons show ?thesis by (cases ys) auto
qed

lemma sequential_live: "sequential c \<Longrightarrow> length (live c) \<le> 1"
proof -
  assume "sequential c"
  then have i: "sequential_inv c" by (simp add: sequential_invs)
  have d: "distinct (live c)" by (simp add: live_def)
  show ?thesis
  proof (cases "audioSourceRef c")
    case None
    with i have "live c = []" by (auto simp: live_def sequential_inv_def filter_empty_conv)
    then show ?thesis by simp
  next
    case (Some n)
    with i have "\<forall>m \<in> set (live c). m = n" by (auto simp: live_def sequential_inv_def)
    with d show ?thesis by (rule distinct_all_equal)
  qed
qed


section \<open>The claims\<close>

text \<open>
  Claim C1, as amended. For every byte sequence \<open>pcm\<close> of length \<open>N\<close>,
  \<^verbatim>\<open>createWavBlob\<close> returns a blob of type \<^verbatim>\<open>audio/wav\<close> with exactly \<open>44 + N\<close> bytes:
  bytes 0-3 are \<^verbatim>\<open>RIFF\<close>, bytes 4-7 hold \<open>(36 + N) mod 2\<^sup>3\<^sup>2\<close> as a little-endian
  unsigned 32-bit integer, bytes 8-11 are \<^verbatim>\<open>WAVE\<close>, bytes 12-15 are \<^verbatim>\<open>fmt \<close>, bytes
  16-19 hold 16, bytes 20-21 hold 1, bytes 22-23 hold 1, bytes 24-27 hold 24000, bytes 28-31
  hold 48000, bytes 32-33 hold 2, bytes 34-35 hold 16, bytes 36-39 are \<^verbatim>\<open>data\<close>, bytes
  40-43 hold \<open>N mod 2\<^sup>3\<^sup>2\<close>, and the bytes from 44 on are \<open>pcm\<close>. When
  \<open>36 + N < 2\<^sup>3\<^sup>2\<close> the two size fields hold \<open>36 + N\<close> and \<open>N\<close> themselves. The
  result is a function of \<open>pcm\<close> alone.
\<close>

theorem createWavBlob_layout:
  "\<exists>file. createWavBlob pcm = Inr \<lparr>blob_bytes = file, blob_type = ''audio/wav''\<rparr> \<and>
     length file = 44 + length pcm \<and>
     bytes_at file 0 4 = ascii ''RIFF'' \<and>
     le_uint (bytes_at file 4 4) = (36 + length pcm) mod 2 ^ 32 \<and>
     bytes_at file 8 4 = ascii ''WAVE'' \<and>
     bytes_at file 12 4 = ascii ''fmt '' \<and>
     le_uint (bytes_at file 16 4) = 16 \<and>
     le_uint (bytes_at file 20 2) = 1 \<and>
     le_uint (bytes_at file 22 2) = 1 \<and>
     le_uint (bytes_at file 24 4) = 24000 \<and>
     le_uint (bytes_at file 28 4) = 48000 \<and>
     le_uint (bytes_at file 32 2) = 2 \<and>
     le_uint (bytes_at file 34 2) = 16 \<and>
     bytes_at file 36 4 = ascii ''data'' \<and>
     le_uint (bytes_at file 40 4) = length pcm mod 2 ^ 32 \<and>
     drop 44 file = pcm \<and>
     (36 + length pcm < 2 ^ 32 \<longrightarrow>
        le_uint (bytes_at file 4 4) = 36 + length pcm \<and>
        le_uint (bytes_at file 40 4) = length pcm)"
proof (intro exI conjI impI)
  let ?file = "riff_header (length pcm) @ pcm"
  show "createWavBlob pcm = Inr \<lparr>blob_bytes = ?file, blob_type = ''audio/wav''\<rparr>"
    by (rule createWavBlob_bytes)
  show "length ?file = 44 + length pcm" by (simp add: riff_header_length)
  show "bytes_at ?file 0 4 = ascii ''RIFF''" by (rule riff_header_tags)
  show "le_uint (bytes_at ?file 4 4) = (36 + length pcm) mod 2 ^ 32"
    by (simp add: riff_header_sizes)
  show "bytes_at ?file 8 4 = ascii ''WAVE''" by (rule riff_header_tags)
  show "bytes_at ?file 12 4 = ascii ''fmt ''" by (rule riff_header_tags)
  show "le_uint (bytes_at ?file 16 4) = 16" by (rule riff_header_format)
  show "le_uint (bytes_at ?file 20 2) = 1" by (rule riff_header_format)
  show "le_uint (bytes_at ?file 22 2) = 1" by (rule riff_header_format)
  show "le_uint (bytes_at ?file 24 4) = 24000" by (rule riff_header_format)
  show "le_uint (bytes_at ?file 28 4) = 48000" by (rule riff_header_format)
  show "le_uint (bytes_at ?file 32 2) = 2" by (rule riff_header_format)
  show "le_uint (bytes_at ?file 34 2) = 16" by (rule riff_header_format)
  show "bytes_at ?file 36 4 = ascii ''data''" by (rule riff_header_tags)
  show "le_uint (bytes_at ?file 40 4) = length pcm mod 2 ^ 32"
    by (simp add: riff_header_sizes)
  show "drop 44 ?file = pcm" by (simp add: riff_header_length)
  assume "36 + length pcm < 2 ^ 32"
  then show "le_uint (bytes_at ?file 4 4) = 36 + length pcm"
    and "le_uint (bytes_at ?file 40 4) = length pcm"
    by (simp_all add: riff_header_sizes)
qed

theorem createWavBlob_layout_witness:
  "\<exists>file. createWavBlob [0x00, 0x00, 0x01, 0xFF]
       = Inr \<lparr>blob_bytes = file, blob_type = ''audio/wav''\<rparr> \<and>
     length file = 48 \<and>
     le_uint (bytes_at file 4 4) = 40 \<and>
     le_uint (bytes_at file 40 4) = 4 \<and>
     drop 44 file = [0x00, 0x00, 0x01, 0xFF]"
  using createWavBlob_layout [of "[0x00, 0x00, 0x01, 0xFF]"] by auto

text \<open>
  Claim C1 as stated fails for a payload of \<open>2\<^sup>3\<^sup>2 - 36\<close> bytes: \<^verbatim>\<open>setUint32\<close> stores
  \<open>36 + N = 2\<^sup>3\<^sup>2\<close> modulo \<open>2\<^sup>3\<^sup>2\<close>, so bytes 4-7 read 0.
\<close>

theorem createWavBlob_riff_size_wraps:
  "\<not> isl (createWavBlob (replicate 4294967260 0)) \<and>
   le_uint (bytes_at (blob_bytes (projr (createWavBlob (replicate 4294967260 0)))) 4 4) = 0 \<and>
   36 + length (replicate 4294967260 (0 :: byte)) = 4294967296"
  by (simp add: createWavBlob_bytes riff_header_sizes)




text \<open>
  Claim C3, as amended. The base64 string \<^verbatim>\<open>AAAB/w==\<close> decodes to the 4 bytes
  \<open>[0x00, 0x00, 0x01, 0xFF]\<close>; \<^verbatim>\<open>createWavBlob\<close> on them yields 48 bytes whose bytes
  40-43 hold 4; \<^verbatim>\<open>decodePcmData\<close> on them yields 2 frames on 1 channel at rate 24000, with
  samples \<open>0 / 32768 = 0\<close> and \<open>-255 / 32768\<close>, \<open>-255\<close> being the signed 16-bit value
  \<open>0xFF01\<close> that bytes \<open>0x01, 0xFF\<close> form in little-endian order.
\<close>

theorem end_to_end_scenario:
  "decode ''AAAB/w=='' = Inr [0x00, 0x00, 0x01, 0xFF] \<and>
   (\<exists>file. createWavBlob [0x00, 0x00, 0x01, 0xFF]
        = Inr \<lparr>blob_bytes = file, blob_type = ''audio/wav''\<rparr> \<and>
      length file = 48 \<and> le_uint (bytes_at file 40 4) = 4) \<and>
   decodePcmData [0x00, 0x00, 0x01, 0xFF] =
     Inr \<lparr>numberOfChannels = 1, length_frames = 2, sampleRate = 24000,
          channelData = [[0 / 32768, - 255 / 32768]]\<rparr> \<and>
   int16_le 0x01 0xFF = - 255"
proof (intro conjI)
  show "decode ''AAAB/w=='' = Inr [0x00, 0x00, 0x01, 0xFF]"
    by (simp add: decode_def atob_def forgiving_base64_decode_def remove_padding_def
        is_ascii_whitespace_def alphabet_value_def byte_of_char_of)
  show "\<exists>file. createWavBlob [0x00, 0x00, 0x01, 0xFF]
        = Inr \<lparr>blob_bytes = file, blob_type = ''audio/wav''\<rparr> \<and>
      length file = 48 \<and> le_uint (bytes_at file 40 4) = 4"
    by (simp add: createWavBlob_bytes riff_header_length riff_header_sizes)
  show "decodePcmData [0x00, 0x00, 0x01, 0xFF] =
      Inr \<lparr>numberOfChannels = 1, length_frames = 2, sampleRate = 24000,
           channelData = [[0 / 32768, - 255 / 32768]]\<rparr>"
    using decodePcmData_even [of "[0x00, 0x00, 0x01, 0xFF]"]
    by (simp add: int16_le_def upt_rec)
  show "int16_le 0x01 0xFF = - 255" by (simp add: int16_le_def)
qed

text \<open>
  Claim C3 as stated fails in its last part: the second sample is not \<open>511 / 32768\<close>.
\<close>

theorem end_to_end_second_sample:
  "decodePcmData [0x00, 0x00, 0x01, 0xFF] \<noteq>
     Inr \<lparr>numberOfChannels = 1, length_frames = 2, sampleRate = 24000,
          channelData = [[0 / 32768, 511 / 32768]]\<rparr>"
  using decodePcmData_even [of "[0x00, 0x00, 0x01, 0xFF]"]
  by (simp add: int16_le_def upt_rec)

text \<open>
  Claim C4. For every byte sequence of odd length, \<^verbatim>\<open>decodePcmData\<close> fails: the
  \<^verbatim>\<open>Int16Array\<close> constructor raises \<^verbatim>\<open>RangeError\<close>, the rejection that the specification
  names \<^verbatim>\<open>DecodeError\<close>, and no buffer is produced from the complete samples.
\<close>

theorem decodePcmData_odd_length:
  "odd (length pcm) \<Longrightarrow> decodePcmData pcm = Inl RangeError"
  by (simp add: decodePcmData_def new_Int16Array_def and_then_def odd_iff_mod_2_eq_one)

theorem decodePcmData_odd_length_witness:
  "odd (length [0x00, 0x80, 0x01 :: byte]) \<and> decodePcmData [0x00, 0x80, 0x01] = Inl RangeError"
  using decodePcmData_odd_length [of "[0x00, 0x80, 0x01]"] by simp

text \<open>
  Claim C5. For every byte sequence, decoding its base64 encoding returns the bytes:
  \<^verbatim>\<open>decode(base64Encode(bytes)) == bytes\<close>.
\<close>

theorem decode_base64Encode: "decode (base64Encode bytes) = Inr bytes"
proof -
  define binaryString where "binaryString = map (\<lambda>b. char_of (unat b)) bytes"
  have a: "atob (base64Encode bytes) = Inr binaryString"
    by (simp add: atob_def forgiving_base64_decode_encode binaryString_def)
  have "map (\<lambda>i. (of_char (binaryString ! i) :: byte)) [0..<length binaryString]
      = map of_char binaryString"
    by (rule map_nth_of_char)
  also have "\<dots> = bytes"
    by (simp add: binaryString_def comp_def byte_char_roundtrip)
  finally show ?thesis by (simp add: decode_def a)
qed

text \<open>
  Claim C6, as amended. A play request handled while \<^verbatim>\<open>isPlaying\<close> reads true starts no
  session: it stops the session the controller references and sets \<^verbatim>\<open>isPlaying\<close> to false,
  adding no node and suspending no \<^verbatim>\<open>playBuffer\<close> call. So when no session is live, no call
  is suspended and \<^verbatim>\<open>isPlaying\<close> reads false, issuing play(A), letting it continue and the
  component render yields exactly one live session, bound to the buffer decoded from A and
  referenced by the controller, and issuing play(B) next leaves no session live and none
  bound to B. In every state reached when handlers do not overlap and the component renders
  after each of them (each play request made while not playing is followed at once by the
  continuation of its \<^verbatim>\<open>playBuffer\<close> call and a render, and each stop by the \<^verbatim>\<open>ended\<close>
  event of the session it stopped and a render), at most one session is live, and it is the
  one the controller references while \<^verbatim>\<open>isPlaying\<close> is set.
\<close>

theorem play_request_toggles:
  "(isPlaying c \<and> summary props \<noteq> [] \<longrightarrow>
      (let c' = step c (PlayRequested props)
       in \<not> isPlaying_state c' \<and> \<not> isPlaying (step c' Rendered) \<and>
          suspended c' = suspended c \<and>
          map node_buffer (nodes c') = map node_buffer (nodes c) \<and>
          set (live c') \<subseteq> set (live c) \<and>
          (\<forall>n. audioSourceRef c = Some n \<longrightarrow> n \<notin> set (live c')))) \<and>
   (\<not> isPlaying c \<and> live c = [] \<and> suspended c = [] \<and>
    summary props \<noteq> [] \<and> summaryAudio props = Some base64 \<and> base64 \<noteq> [] \<and>
    decode base64 = Inr pcm \<and> decodePcmData pcm = Inr buffer \<and> summary props' \<noteq> [] \<longrightarrow>
      (let c1 = run c [PlayRequested props, PlayBufferResumed 0 True, Rendered];
           c2 = step c1 (PlayRequested props')
       in isPlaying c1 \<and> isPlaying_state c1 \<and> live c1 = [length (nodes c)] \<and>
          audioSourceRef c1 = Some (length (nodes c)) \<and>
          node_buffer (nodes c1 ! length (nodes c)) = buffer \<and>
          \<not> isPlaying_state c2 \<and> \<not> isPlaying (step c2 Rendered) \<and>
          live c2 = [] \<and> suspended c2 = [] \<and>
          length (nodes c2) = length (nodes c1))) \<and>
   (sequential s \<longrightarrow>
      length (live s) \<le> 1 \<and>
      (\<forall>n \<in> set (live s). isPlaying s \<and> audioSourceRef s = Some n))"
proof (intro conjI impI)
  assume a: "isPlaying c \<and> summary props \<noteq> []"
  then have s: "step c (PlayRequested props) = setIsPlaying False (stop_current c)"
    by (simp add: playSummaryAudio_def)
  have n: "map node_buffer (nodes (stop_current c)) = map node_buffer (nodes c)"
    by (cases "audioSourceRef c") (simp_all add: stop_current_def node_buffer_stop_node)
  have l: "set (live (setIsPlaying False (stop_current c))) \<subseteq> set (live c) \<and>
      (\<forall>n. audioSourceRef c = Some n \<longrightarrow>
         n \<notin> set (live (setIsPlaying False (stop_current c))))"
    by (cases "audioSourceRef c") (auto simp: live_stop_current live_stop_current_None)
  show "let c' = step c (PlayRequested props)
      in \<not> isPlaying_state c' \<and> \<not> isPlaying (step c' Rendered) \<and>
         suspended c' = suspended c \<and>
         map node_buffer (nodes c') = map node_buffer (nodes c) \<and>
         set (live c') \<subseteq> set (live c) \<and>
         (\<forall>n. audioSourceRef c = Some n \<longrightarrow> n \<notin> set (live c'))"
    unfolding Let_def s using n l by (simp add: setIsPlaying_def render_def)
next
  assume a: "\<not> isPlaying c \<and> live c = [] \<and> suspended c = [] \<and>
    summary props \<noteq> [] \<and> summaryAudio props = Some base64 \<and> base64 \<noteq> [] \<and>
    decode base64 = Inr pcm \<and> decodePcmData pcm = Inr buffer \<and> summary props' \<noteq> []"
  define c1 where "c1 = c\<lparr>nodes := nodes c @ [\<lparr>node_buffer = buffer, status = Playing\<rparr>],
      audioSourceRef := Some (length (nodes c)), isPlaying_state := True, isPlaying := True\<rparr>"
  have r: "run c [PlayRequested props, PlayBufferResumed 0 True, Rendered] = c1"
    using a
    by (simp add: run_def playSummaryAudio_def playBuffer_def setIsPlaying_def render_def c1_def)
  have l1: "live c1 = [length (nodes c)]"
    using a live_started [where c = c and buffer = buffer and r = "Some (length (nodes c))"
        and b = True]
    by (simp add: c1_def live_def)
  have s: "step c1 (PlayRequested props') = setIsPlaying False (stop_current c1)"
    using a by (simp add: playSummaryAudio_def c1_def)
  have l2: "live (setIsPlaying False (stop_current c1)) = []"
    using live_stop_current [of c1 "length (nodes c)" False] l1 by (simp add: c1_def)
  have o: "suspended c1 = [] \<and> isPlaying c1 \<and> isPlaying_state c1 \<and>
      audioSourceRef c1 = Some (length (nodes c)) \<and>
      node_buffer (nodes c1 ! length (nodes c)) = buffer"
    using a by (simp add: c1_def)
  show "let c1 = run c [PlayRequested props, PlayBufferResumed 0 True, Rendered];
          c2 = step c1 (PlayRequested props')
      in isPlaying c1 \<and> isPlaying_state c1 \<and> live c1 = [length (nodes c)] \<and>
         audioSourceRef c1 = Some (length (nodes c)) \<and>
         node_buffer (nodes c1 ! length (nodes c)) = buffer \<and>
         \<not> isPlaying_state c2 \<and> \<not> isPlaying (step c2 Rendered) \<and>
         live c2 = [] \<and> suspended c2 = [] \<and>
         length (nodes c2) = length (nodes c1)"
    unfolding Let_def r s using l1 l2 o by (simp add: setIsPlaying_def render_def)
next
  assume q: "sequential s"
  then show "length (live s) \<le> 1" by (rule sequential_live)
  from q have "sequential_inv s" by (simp add: sequential_invs)
  then show "\<forall>n \<in> set (live s). isPlaying s \<and> audioSourceRef s = Some n"
    by (auto simp: live_def sequential_inv_def)
qed

theorem play_request_toggles_witness:
  "\<not> isPlaying initial \<and> live initial = [] \<and> suspended initial = [] \<and>
   summary props_A \<noteq> [] \<and> summaryAudio props_A = Some ''AAAB/w=='' \<and>
   decode ''AAAB/w=='' = Inr [0x00, 0x00, 0x01, 0xFF] \<and>
   decodePcmData [0x00, 0x00, 0x01, 0xFF] = Inr buffer_A \<and> summary props_B \<noteq> [] \<and>
   isPlaying (run initial [PlayRequested props_A, PlayBufferResumed 0 True, Rendered]) \<and>
   live (run initial [PlayRequested props_A, PlayBufferResumed 0 True, Rendered]) = [0] \<and>
   live (step (run initial [PlayRequested props_A, PlayBufferResumed 0 True, Rendered])
          (PlayRequested props_B)) = [] \<and>
   sequential (run initial [PlayRequested props_A, PlayBufferResumed 0 True, Rendered]) \<and>
   length (live (run initial [PlayRequested props_A, PlayBufferResumed 0 True, Rendered])) \<le> 1"
proof -
  have h: "\<not> isPlaying initial \<and> live initial = [] \<and> suspended initial = [] \<and>
      summary props_A \<noteq> [] \<and> summaryAudio props_A = Some ''AAAB/w=='' \<and>
      ''AAAB/w=='' \<noteq> [] \<and>
      decode ''AAAB/w=='' = Inr [0x00, 0x00, 0x01, 0xFF] \<and>
      decodePcmData [0x00, 0x00, 0x01, 0xFF] = Inr buffer_A \<and> summary props_B \<noteq> []"
    by (simp add: initial_def live_def props_fields decode_A decodePcmData_A)
  note t = play_request_toggles [of initial props_A "''AAAB/w==''" "[0x00, 0x00, 0x01, 0xFF]"
      buffer_A props_B "run initial [PlayRequested props_A, PlayBufferResumed 0 True, Rendered]"]
  from t [THEN conjunct2, THEN conjunct1, THEN mp, OF h]
  have "isPlaying (run initial [PlayRequested props_A, PlayBufferResumed 0 True, Rendered]) \<and>
      live (run initial [PlayRequested props_A, PlayBufferResumed 0 True, Rendered]) = [0] \<and>
      live (step (run initial [PlayRequested props_A, PlayBufferResumed 0 True, Rendered])
             (PlayRequested props_B)) = []"
    by (simp add: Let_def initial_def)
  moreover have q: "sequential (run initial [PlayRequested props_A, PlayBufferResumed 0 True,
      Rendered])"
    using h by (intro sequential_play sequential_initial) simp
  moreover from t [THEN conjunct2, THEN conjunct2, THEN mp, OF q]
  have "length (live (run initial [PlayRequested props_A, PlayBufferResumed 0 True,
      Rendered])) \<le> 1"
    by blast
  ultimately show ?thesis using h by blast
qed

text \<open>
  Claim C6 as stated fails. After play(A) has started its session and the component has
  rendered, play(B) stops the session and starts nothing: no session is live and the only
  node is bound to A. When play(B) is handled before the component has rendered, it reads
  \<^verbatim>\<open>isPlaying\<close> as false and starts a second session while the first is live, and so do two
  requests issued before the first one continues.
\<close>

theorem play_then_play_counterexample:
  "reachable (run initial [PlayRequested props_A, PlayBufferResumed 0 True, Rendered,
                           PlayRequested props_B]) \<and>
   run initial [PlayRequested props_A, PlayBufferResumed 0 True, Rendered,
                PlayRequested props_B] =
     \<lparr>isPlaying = True, isPlaying_state = False, audioSourceRef = Some 0,
      nodes = [\<lparr>node_buffer = buffer_A, status = Stopped\<rparr>], suspended = []\<rparr> \<and>
   live (run initial [PlayRequested props_A, PlayBufferResumed 0 True, Rendered,
                      PlayRequested props_B]) = [] \<and>
   reachable (run initial [PlayRequested props_A, PlayBufferResumed 0 True,
                           PlayRequested props_B, PlayBufferResumed 0 True]) \<and>
   live (run initial [PlayRequested props_A, PlayBufferResumed 0 True,
                      PlayRequested props_B, PlayBufferResumed 0 True]) = [0, 1] \<and>
   reachable (run initial [PlayRequested props_A, PlayRequested props_B,
                           PlayBufferResumed 0 True, PlayBufferResumed 0 True]) \<and>
   live (run initial [PlayRequested props_A, PlayRequested props_B,
                      PlayBufferResumed 0 True, PlayBufferResumed 0 True]) = [0, 1]"
proof (intro conjI)
  show "reachable (run initial [PlayRequested props_A, PlayBufferResumed 0 True, Rendered,
      PlayRequested props_B])"
    by (rule reachable_run [OF reachable_initial])
  show "reachable (run initial [PlayRequested props_A, PlayBufferResumed 0 True,
      PlayRequested props_B, PlayBufferResumed 0 True])"
    by (rule reachable_run [OF reachable_initial])
  show "reachable (run initial [PlayRequested props_A, PlayRequested props_B,
      PlayBufferResumed 0 True, PlayBufferResumed 0 True])"
    by (rule reachable_run [OF reachable_initial])
  show "run initial [PlayRequested props_A, PlayBufferResumed 0 True, Rendered,
      PlayRequested props_B] =
      \<lparr>isPlaying = True, isPlaying_state = False, audioSourceRef = Some 0,
       nodes = [\<lparr>node_buffer = buffer_A, status = Stopped\<rparr>], suspended = []\<rparr>"
    by (rule trace_play_stop)
  show "live (run initial [PlayRequested props_A, PlayBufferResumed 0 True, Rendered,
      PlayRequested props_B]) = []"
    by (simp add: trace_play_stop live_def)
  show "live (run initial [PlayRequested props_A, PlayBufferResumed 0 True,
      PlayRequested props_B, PlayBufferResumed 0 True]) = [0, 1]"
    by (simp add: trace_play_play live_def upt_rec)
  show "live (run initial [PlayRequested props_A, PlayRequested props_B,
      PlayBufferResumed 0 True, PlayBufferResumed 0 True]) = [0, 1]"
    by (simp add: trace_overlap live_def upt_rec)
qed






text \<open>
  Claim C9. On a controller that is not playing, the stop of the \<^verbatim>\<open>audioFile\<close> effect
  changes nothing, and applying it twice is the same as applying it once, whatever the
  state; the stop of the unmount cleanup is idempotent as well, and in any reachable state
  whose \<^verbatim>\<open>isPlaying\<close> was last set to false neither the cleanup nor the effect changes
  anything, whichever value of \<^verbatim>\<open>isPlaying\<close> the effect reads. Neither can raise: \<^verbatim>\<open>?.\<close>
  skips a null reference, and a referenced node has been started.
\<close>

theorem stop_when_idle:
  "(\<not> isPlaying c \<longrightarrow> audioFileEffect c = c) \<and>
   audioFileEffect (audioFileEffect c) = audioFileEffect c \<and>
   unmountCleanup (unmountCleanup c) = unmountCleanup c \<and>
   (reachable c \<and> \<not> isPlaying_state c \<longrightarrow> unmountCleanup c = c \<and> audioFileEffect c = c)"
proof (intro conjI impI)
  show "audioFileEffect c = c" if "\<not> isPlaying c"
    using that by (simp add: audioFileEffect_def)
  have i: "stop_current (stop_current c) = stop_current c" for c
    by (cases "audioSourceRef c") (simp_all add: stop_current_def stop_node_idem)
  show "audioFileEffect (audioFileEffect c) = audioFileEffect c"
    using i [of c] by (cases c) (simp add: audioFileEffect_def setIsPlaying_def stop_current_def
        split: option.splits)
  show "unmountCleanup (unmountCleanup c) = unmountCleanup c"
    using i [of c] by (simp add: unmountCleanup_def)
  have u: "stop_current c = c" if "reachable c \<and> \<not> isPlaying_state c"
  proof (cases "audioSourceRef c")
    case None
    then show ?thesis by (simp add: stop_current_def)
  next
    case (Some n)
    from that have "controller_inv c" by (simp add: reachable_inv)
    with Some that have "n < length (nodes c)" "status (nodes c ! n) \<noteq> Playing"
      by (simp_all add: controller_inv_def)
    then have "stop_node n (nodes c) = nodes c" by (rule stop_node_idle)
    with Some show ?thesis by (simp add: stop_current_def)
  qed
  show "unmountCleanup c = c" if "reachable c \<and> \<not> isPlaying_state c"
    using u [OF that] by (simp add: unmountCleanup_def)
  show "audioFileEffect c = c" if "reachable c \<and> \<not> isPlaying_state c"
    using u [OF that] that by (simp add: audioFileEffect_def setIsPlaying_def)
qed

theorem stop_when_idle_witness:
  "reachable (run initial [PlayRequested props_A, PlayBufferResumed 0 True, Rendered,
                           PlayRequested props_B]) \<and>
   isPlaying (run initial [PlayRequested props_A, PlayBufferResumed 0 True, Rendered,
                           PlayRequested props_B]) \<and>
   \<not> isPlaying_state (run initial [PlayRequested props_A, PlayBufferResumed 0 True, Rendered,
                                   PlayRequested props_B]) \<and>
   audioFileEffect (run initial [PlayRequested props_A, PlayBufferResumed 0 True, Rendered,
                                 PlayRequested props_B]) =
     run initial [PlayRequested props_A, PlayBufferResumed 0 True, Rendered,
                  PlayRequested props_B] \<and>
   unmountCleanup (run initial [PlayRequested props_A, PlayBufferResumed 0 True, Rendered,
                                PlayRequested props_B]) =
     run initial [PlayRequested props_A, PlayBufferResumed 0 True, Rendered,
                  PlayRequested props_B] \<and>
   \<not> isPlaying initial \<and> audioFileEffect initial = initial"
proof -
  let ?c = "run initial [PlayRequested props_A, PlayBufferResumed 0 True, Rendered,
    PlayRequested props_B]"
  have r: "reachable ?c" by (rule reachable_run [OF reachable_initial])
  have i: "isPlaying ?c \<and> \<not> isPlaying_state ?c" by (simp add: trace_play_stop)
  have j: "\<not> isPlaying initial" by (simp add: initial_def)
  from stop_when_idle [of ?c] stop_when_idle [of initial] r i j show ?thesis by blast
qed

text \<open>
  Claim C10, as amended. In every reachable state of the component, if \<^verbatim>\<open>isPlaying\<close> was
  last set to true then \<^verbatim>\<open>audioSourceRef.current\<close> is not null; it refers to a node that was
  started and is playing. So the value of \<^verbatim>\<open>isPlaying\<close> that the handlers read implies a
  non-null reference whenever the component has rendered since \<^verbatim>\<open>isPlaying\<close> was last set,
  and in particular right after any render.
\<close>

theorem playing_state_holds_source:
  "reachable c \<Longrightarrow>
   (isPlaying_state c \<longrightarrow>
      audioSourceRef c \<noteq> None \<and>
      (\<exists>n. audioSourceRef c = Some n \<and> n < length (nodes c) \<and>
           status (nodes c ! n) = Playing)) \<and>
   (isPlaying c \<and> isPlaying c = isPlaying_state c \<longrightarrow> audioSourceRef c \<noteq> None) \<and>
   (isPlaying (step c Rendered) \<longrightarrow> audioSourceRef (step c Rendered) \<noteq> None)"
proof -
  assume "reachable c"
  then have "controller_inv c" by (simp add: reachable_inv)
  then show ?thesis
    by (cases "audioSourceRef c") (auto simp: controller_inv_def render_def)
qed

theorem playing_state_holds_source_witness:
  "reachable (run initial [PlayRequested props_A, PlayBufferResumed 0 True, Rendered]) \<and>
   isPlaying_state (run initial [PlayRequested props_A, PlayBufferResumed 0 True, Rendered]) \<and>
   isPlaying (run initial [PlayRequested props_A, PlayBufferResumed 0 True, Rendered]) \<and>
   isPlaying (step (run initial [PlayRequested props_A, PlayBufferResumed 0 True, Rendered])
                Rendered) \<and>
   audioSourceRef (run initial [PlayRequested props_A, PlayBufferResumed 0 True, Rendered])
     \<noteq> None \<and>
   audioSourceRef (step (run initial [PlayRequested props_A, PlayBufferResumed 0 True, Rendered])
                     Rendered) \<noteq> None"
proof -
  let ?c = "run initial [PlayRequested props_A, PlayBufferResumed 0 True, Rendered]"
  have r: "reachable ?c" by (rule reachable_run [OF reachable_initial])
  have i: "isPlaying_state ?c \<and> isPlaying ?c \<and> isPlaying (step ?c Rendered)"
    by (simp add: trace_play_rendered render_def)
  from playing_state_holds_source [OF r] r i show ?thesis by blast
qed

text \<open>
  Claim C10 as stated fails for the value of \<^verbatim>\<open>isPlaying\<close> that the handlers read: when a
  session ends, \<^verbatim>\<open>onended\<close> clears \<^verbatim>\<open>audioSourceRef.current\<close> at once, while \<^verbatim>\<open>isPlaying\<close>
  still reads true until the component renders again.
\<close>

theorem playing_flag_outlives_source:
  "reachable (run initial [PlayRequested props_A, PlayBufferResumed 0 True, Rendered,
                           SourceEnded 0]) \<and>
   isPlaying (run initial [PlayRequested props_A, PlayBufferResumed 0 True, Rendered,
                           SourceEnded 0]) \<and>
   audioSourceRef (run initial [PlayRequested props_A, PlayBufferResumed 0 True, Rendered,
                                SourceEnded 0]) = None"
proof (intro conjI)
  show "reachable (run initial [PlayRequested props_A, PlayBufferResumed 0 True, Rendered,
      SourceEnded 0])"
    by (rule reachable_run [OF reachable_initial])
  show "isPlaying (run initial [PlayRequested props_A, PlayBufferResumed 0 True, Rendered,
      SourceEnded 0])"
    by (simp add: trace_play_ended)
  show "audioSourceRef (run initial [PlayRequested props_A, PlayBufferResumed 0 True, Rendered,
      SourceEnded 0]) = None"
    by (simp add: trace_play_ended)
qed

end
